theory Spec2Isabelle
  imports
    Main
    "HOL-Library.Word"
    "HOL-Library.Char_ord"
    "HOL-Library.List_Lexorder"
    "HOL-Library.Multiset"
    "HOL-Library.Sublist"
begin

section \<open>Regular expressions as the normalizer uses them\<close>

text \<open>
  The normalizer of \<^verbatim>\<open>myprofiler.go\<close> is a table of eight compiled regular expressions,
  each applied with \<^verbatim>\<open>ReplaceAllString\<close>. The table is embedded as data; the matcher below
  gives the patterns the meaning Go's \<^verbatim>\<open>regexp\<close> package gives them: a backtracking search in
  priority order (greedy operators try the longer alternative first), of which the first
  result is the leftmost-first match.

  A Go string is a byte sequence and so is a HOL \<open>string\<close>. Go's matcher walks over UTF-8
  runes; for the eight patterns of the table that is the same as walking over bytes, since
  every character they name is ASCII, \<^verbatim>\<open>\b\<close> is ASCII-only, and a byte of a multi-byte rune is
  never ASCII.

  Capture groups are left out: no replacement string of the table refers to one.
\<close>

datatype regex =
    Chars string
  | NotChars string
  | WordBoundary
  | Seq regex regex
  | Opt regex
  | Star regex
  | Plus regex
  | AtLeast nat regex

text \<open>A cursor is the character before the position (none at the start) and the rest of the input.\<close>

type_synonym cursor = "char option \<times> string"

definition isWordChar :: "char \<Rightarrow> bool" where
  "isWordChar ch =
     (ch \<in> set ''0123456789ABCDEFGHIJKLMNOPQRSTUVWXYZ_abcdefghijklmnopqrstuvwxyz'')"

definition atWordBoundary :: "cursor \<Rightarrow> bool" where
  "atWordBoundary cur =
     ((case fst cur of None \<Rightarrow> False | Some ch \<Rightarrow> isWordChar ch)
      \<noteq> (case snd cur of [] \<Rightarrow> False | ch # _ \<Rightarrow> isWordChar ch))"

text \<open>
  \<open>starN f k cur\<close>: zero or more rounds of \<open>f\<close>, more rounds first. A round that consumes
  nothing is dropped, so \<open>k = length (snd cur)\<close> rounds are always enough.
\<close>

fun starN :: "(cursor \<Rightarrow> cursor list) \<Rightarrow> nat \<Rightarrow> cursor \<Rightarrow> cursor list" where
  "starN f 0 cur = [cur]"
| "starN f (Suc k) cur =
     concat (map (starN f k)
       (filter (\<lambda>cur'. length (snd cur') < length (snd cur)) (f cur))) @ [cur]"

fun repeatN :: "(cursor \<Rightarrow> cursor list) \<Rightarrow> nat \<Rightarrow> cursor \<Rightarrow> cursor list" where
  "repeatN f 0 cur = [cur]"
| "repeatN f (Suc n) cur = concat (map (repeatN f n) (f cur))"

text \<open>All the ways the pattern matches at the cursor, best first; each is the cursor after the match.\<close>

primrec rmatch :: "regex \<Rightarrow> cursor \<Rightarrow> cursor list" where
  "rmatch (Chars cs) =
     (\<lambda>cur. case snd cur of [] \<Rightarrow> []
            | ch # s \<Rightarrow> if ch \<in> set cs then [(Some ch, s)] else [])"
| "rmatch (NotChars cs) =
     (\<lambda>cur. case snd cur of [] \<Rightarrow> []
            | ch # s \<Rightarrow> if ch \<notin> set cs then [(Some ch, s)] else [])"
| "rmatch WordBoundary = (\<lambda>cur. if atWordBoundary cur then [cur] else [])"
| "rmatch (Seq a b) = (\<lambda>cur. concat (map (rmatch b) (rmatch a cur)))"
| "rmatch (Opt a) = (\<lambda>cur. rmatch a cur @ [cur])"
| "rmatch (Star a) = (\<lambda>cur. starN (rmatch a) (length (snd cur)) cur)"
| "rmatch (Plus a) =
     (\<lambda>cur. concat (map (\<lambda>cur'. starN (rmatch a) (length (snd cur')) cur') (rmatch a cur)))"
| "rmatch (AtLeast n a) =
     (\<lambda>cur. concat (map (\<lambda>cur'. starN (rmatch a) (length (snd cur')) cur')
                      (repeatN (rmatch a) n cur)))"

text \<open>
  \<^verbatim>\<open>Regexp.ReplaceAllString\<close>: scan from the left; where the pattern matches, emit the
  replacement and go on behind the match; elsewhere copy one character. As in Go, an empty
  match right behind another match is not replaced (\<open>just\<close> records that a match ended here).
\<close>

function replaceAll :: "regex \<Rightarrow> string \<Rightarrow> bool \<Rightarrow> char option \<Rightarrow> string \<Rightarrow> string" where
  "replaceAll rx repl just prev s =
     (case rmatch rx (prev, s) of
        [] \<Rightarrow> (case s of [] \<Rightarrow> [] | ch # cs \<Rightarrow> ch # replaceAll rx repl False (Some ch) cs)
      | cur' # _ \<Rightarrow>
          if length (snd cur') < length s
          then repl @ replaceAll rx repl True (fst cur') (snd cur')
          else (if just then [] else repl) @
               (case s of [] \<Rightarrow> [] | ch # cs \<Rightarrow> ch # replaceAll rx repl False (Some ch) cs))"
  by pat_completeness auto
termination
  by (relation "measure (\<lambda>(rx, repl, just, prev, s). length s)") auto

declare replaceAll.simps [simp del]

section \<open>The normalizer\<close>

record NormalizePattern =
  re :: regex
  subs :: string

definition Normalize :: "NormalizePattern \<Rightarrow> string \<Rightarrow> string" where
  "Normalize p query = replaceAll (re p) (subs p) False None query"

definition digitChars :: string where
  "digitChars = ''0123456789''"

definition hexChars :: string where
  "hexChars = ''0123456789ABCDEFabcdef''"

text \<open>Go's \<^verbatim>\<open>\s\<close> is tab, newline, form feed, carriage return and space.\<close>

definition spaceChars :: string where
  "spaceChars = [CHR 0x09, CHR 0x0A, CHR 0x0C, CHR 0x0D, CHR 0x20]"

definition squote :: char where
  "squote = CHR 0x27"

definition dquote :: char where
  "dquote = CHR 0x22"

definition backslash :: char where
  "backslash = CHR 0x5C"

definition reSpaces :: regex where
  "reSpaces = Plus (Chars '' '')"

definition reInteger :: regex where
  "reInteger =
     Seq (Opt (Chars ''+-'')) (Seq WordBoundary (Seq (Plus (Chars digitChars)) WordBoundary))"

definition reHex :: regex where
  "reHex =
     Seq WordBoundary (Seq (Chars ''0'') (Seq (Chars ''x'')
       (Seq (Plus (Chars hexChars)) WordBoundary)))"

definition reEscSquote :: regex where
  "reEscSquote = Seq (Chars [backslash]) (Chars [squote])"

definition reEscDquote :: regex where
  "reEscDquote = Seq (Chars [backslash]) (Chars [dquote])"

definition reSquoted :: regex where
  "reSquoted = Seq (Chars [squote]) (Seq (Plus (NotChars [squote])) (Chars [squote]))"

definition reDquoted :: regex where
  "reDquoted = Seq (Chars [dquote]) (Seq (Plus (NotChars [dquote])) (Chars [dquote]))"

definition reListItem :: regex where
  "reListItem =
     Seq (Chars ''NS'') (Seq (Star (Chars spaceChars)) (Seq (Chars '','') (Star (Chars spaceChars))))"

definition reList :: regex where
  "reList = AtLeast 4 reListItem"

definition normalizePatterns :: "NormalizePattern list" where
  "normalizePatterns =
    [\<lparr>re = reSpaces, subs = '' ''\<rparr>,
     \<lparr>re = reInteger, subs = ''N''\<rparr>,
     \<lparr>re = reHex, subs = ''0xN''\<rparr>,
     \<lparr>re = reEscSquote, subs = ''''\<rparr>,
     \<lparr>re = reEscDquote, subs = ''''\<rparr>,
     \<lparr>re = reSquoted, subs = ''S''\<rparr>,
     \<lparr>re = reDquoted, subs = ''S''\<rparr>,
     \<lparr>re = reList, subs = ''...''\<rparr>]"

definition normalizeQuery :: "string \<Rightarrow> string" where
  "normalizeQuery query = fold Normalize normalizePatterns query"

section \<open>Output sinks\<close>

text \<open>
  An \<^verbatim>\<open>io.Writer\<close> is modelled by what it has accepted so far and by a script of the
  faults still to come: each \<^verbatim>\<open>Write\<close> call consumes one entry, \<open>True\<close> making that call
  fail (a script that has run out means the write succeeds). A failing call accepts
  nothing. \<open>failed\<close> counts the calls that returned an error.
\<close>

record sink =
  written :: "string list"
  faults :: "bool list"
  failed :: nat

text \<open>\<^verbatim>\<open>w.Write(data)\<close>: the flag is \<open>err == nil\<close>.\<close>

definition Write :: "sink \<Rightarrow> string \<Rightarrow> bool \<times> sink" where
  "Write w bytes =
     (case faults w of
        [] \<Rightarrow> (True, w\<lparr>written := written w @ [bytes]\<rparr>)
      | f # fs \<Rightarrow>
          if f then (False, w\<lparr>faults := fs, failed := Suc (failed w)\<rparr>)
          else (True, w\<lparr>written := written w @ [bytes], faults := fs\<rparr>))"

text \<open>A sink none of whose coming writes fails.\<close>

definition sound :: "sink \<Rightarrow> bool" where
  "sound w = (True \<notin> set (faults w))"

section \<open>Counts and the ranked report\<close>

type_synonym int64 = "64 word"

text \<open>
  \<^verbatim>\<open>type queryCount struct { q string; c int64 }\<close>. The fields carry a prefix here, the
  one-letter names being wanted for variables.
\<close>

record queryCount =
  qc_q :: string
  qc_c :: int64

text \<open>
  \<^verbatim>\<open>pairList.Less(i, j)\<close> is \<^verbatim>\<open>pl[i].c > pl[j].c\<close>, a signed comparison; it is given on the two
  elements.
\<close>

definition pairList_Less :: "queryCount \<Rightarrow> queryCount \<Rightarrow> bool" where
  "pairList_Less a b = (sint (qc_c b) < sint (qc_c a))"

text \<open>
  \<^verbatim>\<open>sort.Sort\<close> orders by \<^verbatim>\<open>Less\<close> and promises nothing about elements neither of which is
  less than the other. The model inserts each element in front of the first one that is
  not less than it, which keeps such elements in their incoming order; the incoming order
  is the map's iteration order, which is arbitrary (see \<open>showSummary\<close>), so every order of
  ties that Go can produce is the model's for some iteration order.
\<close>

fun insertBy :: "('a \<Rightarrow> 'a \<Rightarrow> bool) \<Rightarrow> 'a \<Rightarrow> 'a list \<Rightarrow> 'a list" where
  "insertBy lt x [] = [x]"
| "insertBy lt x (y # ys) =
     (if lt y x then y # insertBy lt x ys else x # y # ys)"

definition sort_Sort :: "('a \<Rightarrow> 'a \<Rightarrow> bool) \<Rightarrow> 'a list \<Rightarrow> 'a list" where
  "sort_Sort lt xs = foldr (insertBy lt) xs []"

text \<open>The verbs \<^verbatim>\<open>%d\<close> and \<^verbatim>\<open>%4d\<close> of \<^verbatim>\<open>fmt\<close>.\<close>

definition digitChar :: "nat \<Rightarrow> char" where
  "digitChar d = char_of (48 + d)"

fun decimal :: "nat \<Rightarrow> string" where
  "decimal n = (if n < 10 then [digitChar n] else decimal (n div 10) @ [digitChar (n mod 10)])"

declare decimal.simps [simp del]

definition formatInt :: "int \<Rightarrow> string" where
  "formatInt i = (if i < 0 then CHR ''-'' # decimal (nat (- i)) else decimal (nat i))"

definition padLeft :: "nat \<Rightarrow> string \<Rightarrow> string" where
  "padLeft width s = replicate (width - length s) CHR '' '' @ s"

text \<open>\<^verbatim>\<open>fmt.Sprintf("%4d %s\n", p.c, p.q)\<close>\<close>

definition formatLine :: "queryCount \<Rightarrow> string" where
  "formatLine p = padLeft 4 (formatInt (sint (qc_c p))) @ '' '' @ qc_q p @ [CHR 0x0A]"

text \<open>
  \<^verbatim>\<open>for q, c := range sum\<close> (\<open>sm\<close> here) visits every key once, in an order Go leaves open. The order
  of the visit is an argument, \<open>ks\<close>; it is a real order of the map when it lists the keys
  of the map once each.
\<close>

definition rangeMap :: "(string \<rightharpoonup> int64) \<Rightarrow> string list \<Rightarrow> queryCount list" where
  "rangeMap sm ks =
     List.map_filter (\<lambda>k. map_option (\<lambda>v. \<lparr>qc_q = k, qc_c = v\<rparr>) (sm k)) ks"

definition rangeOrder :: "(string \<rightharpoonup> int64) \<Rightarrow> string list \<Rightarrow> bool" where
  "rangeOrder sm ks = (distinct ks \<and> set ks = dom sm)"

text \<open>The printing loop of \<^verbatim>\<open>showSummary\<close>, \<open>i\<close> being the index of the next element.\<close>

fun showLines :: "sink \<Rightarrow> int \<Rightarrow> int \<Rightarrow> queryCount list \<Rightarrow> sink" where
  "showLines w i n [] = w"
| "showLines w i n (p # ps) =
     (if i \<ge> n then w
      else (case Write w (formatLine p) of
              (ok, w') \<Rightarrow> if \<not> ok then w' else showLines w' (i + 1) n ps))"

definition showSummary :: "sink \<Rightarrow> (string \<rightharpoonup> int64) \<Rightarrow> int \<Rightarrow> string list \<Rightarrow> sink" where
  "showSummary w sm n ks = showLines w 0 n (sort_Sort pairList_Less (rangeMap sm ks))"

section \<open>The two summarizers\<close>

text \<open>Reading a Go map at a missing key gives the zero value.\<close>

definition mapGet :: "(string \<rightharpoonup> int64) \<Rightarrow> string \<Rightarrow> int64" where
  "mapGet m k = (case m k of None \<Rightarrow> 0 | Some v \<Rightarrow> v)"

text \<open>\<^verbatim>\<open>m[k] += n\<close>, of which \<^verbatim>\<open>m[k]++\<close> is the case \<open>n = 1\<close>.\<close>

definition addCount :: "string \<Rightarrow> int64 \<Rightarrow> (string \<rightharpoonup> int64) \<Rightarrow> (string \<rightharpoonup> int64)" where
  "addCount k n m = m(k \<mapsto> mapGet m k + n)"

text \<open>\<^verbatim>\<open>type summarizer struct { counts map[string]int64 }\<close>; \<open>None\<close> is the nil map.\<close>

record summarizer =
  s_counts :: "(string \<rightharpoonup> int64) option"

text \<open>
  \<^verbatim>\<open>type recentSummarizer struct { last int; counts [][]queryCount }\<close>. Go's \<^verbatim>\<open>int\<close> is
  modelled by \<open>int\<close>: the values here are lengths, indices and a round counter that is
  reset before it can pass \<^verbatim>\<open>delay\<close>, so none of them overflows.
\<close>

record recentSummarizer =
  rs_last :: int
  rs_counts :: "queryCount list list"

text \<open>
  An \<^verbatim>\<open>Update\<close> gets the caller's slice and may write to its elements, so the model
  returns the contents of that slice after the call next to the new state.
\<close>

definition summarizer_Update :: "summarizer \<Rightarrow> string list \<Rightarrow> summarizer \<times> string list" where
  "summarizer_Update s queries =
     (let cts = (case s_counts s of None \<Rightarrow> Map.empty | Some m \<Rightarrow> m)
      in (s\<lparr>s_counts := Some (fold (\<lambda>k. addCount k 1) queries cts)\<rparr>, queries))"

definition summarizer_Show :: "summarizer \<Rightarrow> sink \<Rightarrow> int \<Rightarrow> string list \<Rightarrow> sink" where
  "summarizer_Show s out num ks =
     showSummary out (case s_counts s of None \<Rightarrow> Map.empty | Some m \<Rightarrow> m) num ks"

text \<open>The run-length encoding loop of \<^verbatim>\<open>recentSummarizer.Update\<close>.\<close>

fun countRuns :: "string list \<Rightarrow> queryCount list \<Rightarrow> queryCount list" where
  "countRuns [] qc = qc"
| "countRuns (k # ks) qc =
     (if length qc > 0 \<and> qc_q (last qc) = k
      then countRuns ks (butlast qc @ [(last qc)\<lparr>qc_c := qc_c (last qc) + 1\<rparr>])
      else countRuns ks (qc @ [\<lparr>qc_q = k, qc_c = 1\<rparr>]))"

text \<open>
  \<^verbatim>\<open>s.counts[1:]\<close> panics on an empty slice: \<open>None\<close>. \<^verbatim>\<open>sort.Strings\<close> orders the caller's
  slice by Go's string comparison, which is the lexicographic order of the bytes.
\<close>

definition recentSummarizer_Update ::
  "recentSummarizer \<Rightarrow> string list \<Rightarrow> (recentSummarizer \<times> string list) option" where
  "recentSummarizer_Update s queries =
     (let kept =
        (if int (length (rs_counts s)) \<ge> rs_last s
         then (case rs_counts s of [] \<Rightarrow> None | _ # rest \<Rightarrow> Some rest)
         else Some (rs_counts s))
      in case kept of
           None \<Rightarrow> None
         | Some cts \<Rightarrow>
             (let sorted_queries = sort queries;
                  qc = countRuns sorted_queries []
              in Some (s\<lparr>rs_counts := cts @ [qc]\<rparr>, sorted_queries)))"

text \<open>The map that \<^verbatim>\<open>recentSummarizer.Show\<close> builds before it calls \<^verbatim>\<open>showSummary\<close>.\<close>

definition recentSummarizer_sum :: "recentSummarizer \<Rightarrow> (string \<rightharpoonup> int64)" where
  "recentSummarizer_sum s =
     fold (\<lambda>qcs m. fold (\<lambda>qc. addCount (qc_q qc) (qc_c qc)) qcs m)
       (rs_counts s) Map.empty"

definition recentSummarizer_Show :: "recentSummarizer \<Rightarrow> sink \<Rightarrow> int \<Rightarrow> string list \<Rightarrow> sink" where
  "recentSummarizer_Show s out num ks = showSummary out (recentSummarizer_sum s) num ks"

text \<open>The interface \<^verbatim>\<open>Summarizer\<close> with its two implementations.\<close>

datatype Summarizer = Cumulative summarizer | Windowed recentSummarizer

definition NewSummarizer :: "int \<Rightarrow> Summarizer" where
  "NewSummarizer lastN =
     (if lastN > 0 then Windowed \<lparr>rs_last = lastN, rs_counts = []\<rparr>
      else Cumulative \<lparr>s_counts = Some Map.empty\<rparr>)"

fun Update :: "Summarizer \<Rightarrow> string list \<Rightarrow> (Summarizer \<times> string list) option" where
  "Update (Cumulative s) queries =
     (case summarizer_Update s queries of (s', qs) \<Rightarrow> Some (Cumulative s', qs))"
| "Update (Windowed s) queries =
     (case recentSummarizer_Update s queries of
        None \<Rightarrow> None
      | Some (s', qs) \<Rightarrow> Some (Windowed s', qs))"

fun Show :: "Summarizer \<Rightarrow> sink \<Rightarrow> int \<Rightarrow> string list \<Rightarrow> sink" where
  "Show (Cumulative s) out num ks = summarizer_Show s out num ks"
| "Show (Windowed s) out num ks = recentSummarizer_Show s out num ks"

text \<open>Several rounds of \<^verbatim>\<open>Update\<close>, one batch after the other.\<close>

fun Updates :: "Summarizer \<Rightarrow> string list list \<Rightarrow> Summarizer option" where
  "Updates s [] = Some s"
| "Updates s (b # bs) =
     (case Update s b of None \<Rightarrow> None | Some (s', _) \<Rightarrow> Updates s' bs)"

section \<open>Sampling the process list\<close>

text \<open>
  The database is outside the program. One call of \<^verbatim>\<open>db.Query\<close> is modelled by what it
  gave: an error, or a row set with its column names (or the error of \<^verbatim>\<open>Columns\<close>), the
  rows that \<^verbatim>\<open>Next\<close> delivers, each with the outcome of its \<^verbatim>\<open>Scan\<close> (an error, or the
  \<^verbatim>\<open>Info\<close> column, \<open>None\<close> for NULL; the other columns are scanned and never read), and
  the error of \<^verbatim>\<open>Close\<close>, if any.
\<close>

datatype scanned = ScanError string | ScanInfo "string option"

record sqlRows =
  rows_columns :: "string + string list"
  rows_next :: "scanned list"
  rows_close :: "string option"

datatype queryResult = QueryError string | QueryRows sqlRows

datatype logLine =
    LogError string
  | LogCloseError string
  | LogUnknownColumns "string list"

text \<open>How a call ends: it returns, it panics, or \<^verbatim>\<open>log.Fatal\<close> exits the process.\<close>

datatype 'a ending = Return 'a | Panic | Exit

definition procList :: string where
  "procList = ''SHOW FULL PROCESSLIST''"

text \<open>The loop over \<^verbatim>\<open>rows.Next()\<close>, with the log and the \<^verbatim>\<open>queries\<close> slice so far.\<close>

fun scanRows :: "scanned list \<Rightarrow> logLine list \<Rightarrow> string list \<Rightarrow> logLine list \<times> string list" where
  "scanRows [] lg queries = (lg, queries)"
| "scanRows (ScanError e # rs) lg queries = scanRows rs (lg @ [LogError e]) queries"
| "scanRows (ScanInfo info # rs) lg queries =
     (if info \<noteq> None \<and> the info \<noteq> [] \<and> the info \<noteq> procList
      then scanRows rs lg (queries @ [the info])
      else scanRows rs lg queries)"

text \<open>The deferred \<^verbatim>\<open>rows.Close()\<close>; it also runs when \<^verbatim>\<open>panic\<close> unwinds, not on \<^verbatim>\<open>log.Fatal\<close>.\<close>

definition closeRows :: "sqlRows \<Rightarrow> logLine list" where
  "closeRows rows = (case rows_close rows of None \<Rightarrow> [] | Some e \<Rightarrow> [LogCloseError e])"

definition processList :: "queryResult \<Rightarrow> logLine list \<times> string list ending" where
  "processList res =
     (case res of
        QueryError e \<Rightarrow> ([LogError e], Return [])
      | QueryRows rows \<Rightarrow>
          (case rows_columns rows of
             Inl e \<Rightarrow> (closeRows rows, Panic)
           | Inr cs \<Rightarrow>
               (let lcs = length cs
                in if lcs \<noteq> 8 \<and> lcs \<noteq> 9 then ([LogUnknownColumns cs], Exit)
                   else (case scanRows (rows_next rows) [] [] of
                           (lg, queries) \<Rightarrow> (lg @ closeRows rows, Return queries)))))"

section \<open>The sampling loop\<close>

text \<open>
  \<^verbatim>\<open>Config\<close>, without the sleep interval (a float that only sets how long the loop
  sleeps).
\<close>

record Config =
  cfg_dump :: "sink option"
  cfg_topN :: int
  cfg_last :: int
  cfg_delay :: int

text \<open>What one round takes from outside: the snapshot, the clock and the map's iteration order.\<close>

record roundInput =
  snapshot :: queryResult
  now :: string
  keyOrder :: "string list"

text \<open>The variables of \<^verbatim>\<open>profile\<close> and the world it writes to.\<close>

record loopState =
  summ :: Summarizer
  cnt :: int
  dumpSink :: "sink option"
  stdout :: sink
  logged :: "logLine list"

text \<open>The dump loop; the flag is false when a write failed and \<^verbatim>\<open>profile\<close> returns.\<close>

fun dumpQueries :: "sink \<Rightarrow> string list \<Rightarrow> bool \<times> sink" where
  "dumpQueries d [] = (True, d)"
| "dumpQueries d (k # ks) =
     (case Write d k of
        (ok, d1) \<Rightarrow>
          if \<not> ok then (False, d1)
          else (case Write d1 [CHR 0x0A] of
                  (ok2, d2) \<Rightarrow> if \<not> ok2 then (False, d2) else dumpQueries d2 ks))"

text \<open>\<^verbatim>\<open>fmt.Println("## ", t)\<close> puts a space between its operands.\<close>

definition header :: "string \<Rightarrow> string" where
  "header t = ''## '' @ '' '' @ t @ [CHR 0x0A]"

datatype status = Continues | Returned | Panicked | Exited

text \<open>One pass through the body of \<^verbatim>\<open>for { ... }\<close>.\<close>

definition profileRound :: "Config \<Rightarrow> loopState \<Rightarrow> roundInput \<Rightarrow> status \<times> loopState" where
  "profileRound cfg st inp =
     (case processList (snapshot inp) of
        (lg, res) \<Rightarrow>
          (let st1 = st\<lparr>logged := logged st @ lg\<rparr>
           in case res of
                Panic \<Rightarrow> (Panicked, st1)
              | Exit \<Rightarrow> (Exited, st1)
              | Return queries \<Rightarrow>
                  (case (case dumpSink st1 of
                           None \<Rightarrow> (True, None)
                         | Some d \<Rightarrow> (case dumpQueries d queries of (ok, d') \<Rightarrow> (ok, Some d'))) of
                     (ok, dump') \<Rightarrow>
                       (let st2 = st1\<lparr>dumpSink := dump'\<rparr>
                        in if \<not> ok then (Returned, st2)
                           else (case Update (summ st2) (map normalizeQuery queries) of
                                   None \<Rightarrow> (Panicked, st2)
                                 | Some (summ', _) \<Rightarrow>
                                     (let st3 = st2\<lparr>summ := summ', cnt := cnt st2 + 1\<rparr>
                                      in if cnt st3 \<ge> cfg_delay cfg
                                         then (Continues,
                                                st3\<lparr>cnt := 0,
                                                    stdout := Show summ'
                                                      (snd (Write (stdout st3) (header (now inp))))
                                                      (cfg_topN cfg) (keyOrder inp)\<rparr>)
                                         else (Continues, st3)))))))"

text \<open>
  The loop has no exit of its own. It is run on the rounds the outside world supplies;
  when they are used up it is still going: \<open>Continues\<close>.
\<close>

fun profileLoop :: "Config \<Rightarrow> loopState \<Rightarrow> roundInput list \<Rightarrow> status \<times> loopState" where
  "profileLoop cfg st [] = (Continues, st)"
| "profileLoop cfg st (inp # inps) =
     (case profileRound cfg st inp of
        (Continues, st') \<Rightarrow> profileLoop cfg st' inps
      | (Returned, st') \<Rightarrow> (Returned, st')
      | (Panicked, st') \<Rightarrow> (Panicked, st')
      | (Exited, st') \<Rightarrow> (Exited, st'))"

definition profile :: "Config \<Rightarrow> sink \<Rightarrow> roundInput list \<Rightarrow> status \<times> loopState" where
  "profile cfg out inps =
     profileLoop cfg
       \<lparr>summ = NewSummarizer (cfg_last cfg), cnt = 0, dumpSink = cfg_dump cfg,
        stdout = out, logged = []\<rparr> inps"

section \<open>Invariants and sample inputs\<close>

text \<open>
  What \<open>NewSummarizer\<close> establishes and \<open>Update\<close> keeps: a windowed summarizer has a
  positive capacity.
\<close>

fun wellFormed :: "Summarizer \<Rightarrow> bool" where
  "wellFormed (Cumulative s) = True"
| "wellFormed (Windowed s) = (0 < rs_last s)"

text \<open>No dump sink, or one none of whose coming writes fails.\<close>

definition dumpSound :: "sink option \<Rightarrow> bool" where
  "dumpSound d = (case d of None \<Rightarrow> True | Some w \<Rightarrow> sound w)"

text \<open>Concrete inputs, for running the model on examples.\<close>

definition exampleColumns :: "string list" where
  "exampleColumns = [''Id'', ''User'', ''Host'', ''db'', ''Command'', ''Time'', ''State'', ''Info'']"

definition exampleSnapshot :: "string list \<Rightarrow> queryResult" where
  "exampleSnapshot qs =
     QueryRows \<lparr>rows_columns = Inr exampleColumns,
                rows_next = map (\<lambda>k. ScanInfo (Some k)) qs, rows_close = None\<rparr>"

definition exampleRound :: "string list \<Rightarrow> string \<Rightarrow> string list \<Rightarrow> roundInput" where
  "exampleRound qs t ks = \<lparr>snapshot = exampleSnapshot qs, now = t, keyOrder = ks\<rparr>"

definition exampleSink :: "bool list \<Rightarrow> sink" where
  "exampleSink fs = \<lparr>written = [], faults = fs, failed = 0\<rparr>"

definition exampleConfig :: "sink option \<Rightarrow> int \<Rightarrow> int \<Rightarrow> Config" where
  "exampleConfig d lastN delay = \<lparr>cfg_dump = d, cfg_topN = 10, cfg_last = lastN, cfg_delay = delay\<rparr>"

section \<open>Notions for the normalizer's properties\<close>

text \<open>
  The pattern matches somewhere in the text, \<open>prev\<close> being the character before it. A
  statement is free of literals when none of the four literal patterns of the table
  (rules 2, 3, 6 and 7) matches anywhere in it.
\<close>

fun occurs :: "regex \<Rightarrow> char option \<Rightarrow> string \<Rightarrow> bool" where
  "occurs rx prev [] = (rmatch rx (prev, []) \<noteq> [])"
| "occurs rx prev (ch # cs) = (rmatch rx (prev, ch # cs) \<noteq> [] \<or> occurs rx (Some ch) cs)"

definition literalFree :: "string \<Rightarrow> bool" where
  "literalFree s =
     (\<not> occurs reInteger None s \<and> \<not> occurs reHex None s
      \<and> \<not> occurs reSquoted None s \<and> \<not> occurs reDquoted None s)"

text \<open>No two spaces next to each other: what rule 1 establishes.\<close>

fun noDoubleSpace :: "string \<Rightarrow> bool" where
  "noDoubleSpace (a # b # s) = (\<not> (a = CHR '' '' \<and> b = CHR '' '') \<and> noDoubleSpace (b # s))"
| "noDoubleSpace s = True"

text \<open>Rules 1 and 8 on their own.\<close>

definition oneSpace :: "string \<Rightarrow> string" where
  "oneSpace s = replaceAll reSpaces '' '' False None s"

definition foldLists :: "string \<Rightarrow> string" where
  "foldLists s = replaceAll reList ''...'' False None s"

text \<open>
  What rule 8 matches, read off directly: one list item is \<^verbatim>\<open>N\<close> or \<^verbatim>\<open>S\<close>, white space, a
  comma, white space, each run of white space taken whole; \<open>itemRest\<close> is the text behind
  the item. A match is four items and then as many more as follow.
\<close>

definition isSpace :: "char \<Rightarrow> bool" where
  "isSpace ch = (ch \<in> set spaceChars)"

definition itemRest :: "string \<Rightarrow> string option" where
  "itemRest s =
     (case s of
        [] \<Rightarrow> None
      | ch # s1 \<Rightarrow>
          if ch \<in> set ''NS''
          then (case dropWhile isSpace s1 of
                  [] \<Rightarrow> None
                | d # s2 \<Rightarrow> if d = CHR '','' then Some (dropWhile isSpace s2) else None)
          else None)"

fun items :: "nat \<Rightarrow> string \<Rightarrow> string option" where
  "items 0 s = Some s"
| "items (Suc n) s = (case itemRest s of None \<Rightarrow> None | Some r \<Rightarrow> items n r)"

fun skipItems :: "nat \<Rightarrow> string \<Rightarrow> string" where
  "skipItems 0 s = s"
| "skipItems (Suc k) s = (case itemRest s of None \<Rightarrow> s | Some r \<Rightarrow> skipItems k r)"

definition listMatch :: "string \<Rightarrow> string option" where
  "listMatch s = (case items 4 s of None \<Rightarrow> None | Some r \<Rightarrow> Some (skipItems (length r) r))"

text \<open>A cursor at white space: the alternatives of an item that gave back trailing white space.\<close>

definition dead :: "cursor \<Rightarrow> bool" where
  "dead cur = (snd cur \<noteq> [] \<and> isSpace (hd (snd cur)))"

text \<open>
  \<open>folded s t\<close>: \<open>t\<close> comes from \<open>s\<close> by copying characters and by putting \<^verbatim>\<open>...\<close> for
  stretches that begin with \<^verbatim>\<open>N\<close> or \<^verbatim>\<open>S\<close>. Rule 8 relates its input to its output in this
  way, and no list item of the output is new.
\<close>

inductive folded :: "string \<Rightarrow> string \<Rightarrow> bool" where
  folded_Nil: "folded [] []"
| folded_copy: "folded s t \<Longrightarrow> folded (ch # s) (ch # t)"
| folded_list: "ch \<in> set ''NS'' \<Longrightarrow> folded (ch # s) (''...'' @ t)"

section \<open>Notions for the properties of statements with and without literals\<close>

text \<open>The character before the position is a word character.\<close>

definition wordBefore :: "char option \<Rightarrow> bool" where
  "wordBefore prev = (case prev of None \<Rightarrow> False | Some ch \<Rightarrow> isWordChar ch)"

text \<open>
  No quote character stands directly behind a backslash; the flag says whether the
  character before the text is a backslash.
\<close>

fun noEscapedQuote :: "bool \<Rightarrow> string \<Rightarrow> bool" where
  "noEscapedQuote esc [] = True"
| "noEscapedQuote esc (ch # cs) =
     ((esc \<longrightarrow> ch \<noteq> squote \<and> ch \<noteq> dquote) \<and> noEscapedQuote (ch = backslash) cs)"

text \<open>
  Every decimal digit stands directly behind a word character (a letter, a digit or an
  underscore), as the digits of an identifier do; the flag says whether the character before
  the text is a word character.
\<close>

fun digitsInWords :: "bool \<Rightarrow> string \<Rightarrow> bool" where
  "digitsInWords wb [] = True"
| "digitsInWords wb (ch # cs) = ((ch \<in> set digitChars \<longrightarrow> wb) \<and> digitsInWords (isWordChar ch) cs)"

text \<open>
  Where a text stands with respect to one kind of quote: none met yet, one met just before,
  or one met and other characters since. \<open>gapless qt g s\<close>: no quote of \<open>s\<close> closes a
  non-empty stretch that a quote opened, which is what rules 6 and 7 look for.
\<close>

datatype gap = Unopened | Opened | Gapped

definition bump :: "gap \<Rightarrow> gap" where
  "bump g = (if g = Unopened then Unopened else Gapped)"

fun gapless :: "char \<Rightarrow> gap \<Rightarrow> string \<Rightarrow> bool" where
  "gapless qt g [] = True"
| "gapless qt g (ch # cs) =
     (if ch = qt then g \<noteq> Gapped \<and> gapless qt Opened cs else gapless qt (bump g) cs)"

text \<open>The three conditions together, for a text read from any point on.\<close>

definition tidy :: "bool \<Rightarrow> bool \<Rightarrow> gap \<Rightarrow> gap \<Rightarrow> string \<Rightarrow> bool" where
  "tidy wb esc sq dq s =
     (digitsInWords wb s \<and> noEscapedQuote esc s \<and> gapless squote sq s \<and> gapless dquote dq s)"

















section \<open>Properties\<close>

subsection \<open>The snapshot filter and the window's capacity\<close>

lemma scanRows_eq:
  "scanRows rs lg qs =
     (lg @ [LogError e. ScanError e \<leftarrow> rs],
      qs @ [k. ScanInfo (Some k) \<leftarrow> rs, k \<noteq> [] \<and> k \<noteq> procList])"
proof (induction rs arbitrary: lg qs)
  case Nil
  show ?case by simp
next
  case (Cons r rs)
  show ?case
  proof (cases r)
    case (ScanError e)
    then show ?thesis by (simp add: Cons.IH)
  next
    case (ScanInfo info)
    then show ?thesis by (cases info) (simp_all add: Cons.IH)
  qed
qed

lemma processList_rows:
  assumes "rows_columns rows = Inr cs" and "length cs = 8 \<or> length cs = 9"
  shows "processList (QueryRows rows) =
     ([LogError e. ScanError e \<leftarrow> rows_next rows] @ closeRows rows,
      Return [k. ScanInfo (Some k) \<leftarrow> rows_next rows, k \<noteq> [] \<and> k \<noteq> procList])"
  using assms by (auto simp: processList_def scanRows_eq Let_def)

text \<open>
  Claim C8. When the row set has the eight or nine columns the code accepts, the batch
  \<open>processList\<close> returns is, in row order, the statement text of every row that decoded
  and whose text is neither NULL, nor empty, nor the snapshot query
  \<^verbatim>\<open>SHOW FULL PROCESSLIST\<close> itself; no other row contributes.
\<close>

theorem processList_keeps_exactly_the_statements:
  assumes "rows_columns rows = Inr cs" and "length cs = 8 \<or> length cs = 9"
  shows "snd (processList (QueryRows rows)) =
     Return [k. ScanInfo (Some k) \<leftarrow> rows_next rows, k \<noteq> [] \<and> k \<noteq> procList]"
  using processList_rows [OF assms] by simp

theorem processList_keeps_witness:
  "snd (processList (QueryRows
      \<lparr>rows_columns = Inr [''Id'', ''User'', ''Host'', ''db'', ''Command'', ''Time'', ''State'', ''Info''],
       rows_next = [ScanInfo None, ScanInfo (Some []), ScanInfo (Some ''SHOW FULL PROCESSLIST''),
                    ScanInfo (Some ''SELECT 1''), ScanError ''bad row'', ScanInfo (Some ''show full processlist'')],
       rows_close = None\<rparr>))
   = Return [''SELECT 1'', ''show full processlist'']"
  using processList_keeps_exactly_the_statements
    [of "\<lparr>rows_columns = Inr [''Id'', ''User'', ''Host'', ''db'', ''Command'', ''Time'', ''State'', ''Info''],
       rows_next = [ScanInfo None, ScanInfo (Some []), ScanInfo (Some ''SHOW FULL PROCESSLIST''),
                    ScanInfo (Some ''SELECT 1''), ScanError ''bad row'', ScanInfo (Some ''show full processlist'')],
       rows_close = None\<rparr>" "[''Id'', ''User'', ''Host'', ''db'', ''Command'', ''Time'', ''State'', ''Info'']"]
  by (simp add: procList_def)

lemma recentSummarizer_Update_length:
  assumes "0 < rs_last s" and "int (length (rs_counts s)) \<le> rs_last s"
  shows "\<exists>s'. recentSummarizer_Update s b = Some (s', sort b) \<and> rs_last s' = rs_last s
           \<and> int (length (rs_counts s')) \<le> rs_last s
           \<and> rs_counts s' = (if int (length (rs_counts s)) \<ge> rs_last s then tl (rs_counts s) else rs_counts s) @ [countRuns (sort b) []]"
  using assms by (cases "rs_counts s") (auto simp: recentSummarizer_Update_def Let_def)

lemma Updates_Windowed_length:
  assumes "0 < rs_last s" and "int (length (rs_counts s)) \<le> rs_last s"
  shows "\<exists>s'. Updates (Windowed s) bs = Some (Windowed s') \<and> rs_last s' = rs_last s
           \<and> int (length (rs_counts s')) \<le> rs_last s"
  using assms
proof (induction bs arbitrary: s)
  case Nil
  then show ?case by simp
next
  case (Cons b bs)
  from recentSummarizer_Update_length [OF Cons.prems, of b]
  obtain s1 where u: "recentSummarizer_Update s b = Some (s1, sort b)"
    and l: "rs_last s1 = rs_last s" and n: "int (length (rs_counts s1)) \<le> rs_last s"
    by blast
  from Cons.IH [of s1] l n Cons.prems
  obtain s' where "Updates (Windowed s1) bs = Some (Windowed s')" "rs_last s' = rs_last s"
    "int (length (rs_counts s')) \<le> rs_last s" by auto
  with u show ?case by simp
qed

text \<open>
  Claim C6. A windowed summarizer built with capacity \<open>N > 0\<close> takes any sequence of
  batches without failing, and afterwards holds at most \<open>N\<close> rounds. The sequence is
  arbitrary, so the bound holds after each single \<open>Update\<close>.
\<close>

theorem windowed_queue_never_exceeds_capacity:
  assumes "0 < N"
  shows "\<exists>s. Updates (NewSummarizer N) bs = Some (Windowed s) \<and> rs_last s = N
           \<and> int (length (rs_counts s)) \<le> N"
  using Updates_Windowed_length [of "\<lparr>rs_last = N, rs_counts = []\<rparr>" bs] assms
  by (simp add: NewSummarizer_def)

theorem windowed_queue_capacity_witness:
  "(0::int) < 2 \<and> (\<exists>s. Updates (NewSummarizer 2) [[''a''], [''b''], [''c'']] = Some (Windowed s) \<and> rs_last s = 2
           \<and> int (length (rs_counts s)) \<le> 2)"
  using windowed_queue_never_exceeds_capacity [of 2 "[[''a''], [''b''], [''c'']]"] by simp

subsection \<open>Sinks\<close>

lemma Write_sound:
  "sound w \<Longrightarrow> \<exists>w'. Write w x = (True, w') \<and> sound w'
     \<and> written w' = written w @ [x] \<and> failed w' = failed w"
  by (cases "faults w") (auto simp: Write_def sound_def)

lemma Write_failed:
  "fst (Write w x) \<longleftrightarrow> failed (snd (Write w x)) = failed w"
  by (cases "faults w") (auto simp: Write_def)

lemma Write_failed_mono: "failed w \<le> failed (snd (Write w x))"
  by (cases "faults w") (auto simp: Write_def)

subsection \<open>Sorting by count\<close>

lemma mset_insertBy: "mset (insertBy lt x ys) = add_mset x (mset ys)"
  by (induction ys) auto

lemma mset_sort_Sort: "mset (sort_Sort lt xs) = mset xs"
  by (induction xs) (auto simp: sort_Sort_def mset_insertBy)

lemma set_insertBy: "set (insertBy lt x ys) = insert x (set ys)"
  by (induction ys) auto

lemma sorted_insertBy:
  "sorted_wrt (\<lambda>a b. sint (qc_c b) \<le> sint (qc_c a)) ys \<Longrightarrow>
   sorted_wrt (\<lambda>a b. sint (qc_c b) \<le> sint (qc_c a)) (insertBy pairList_Less x ys)"
  by (induction ys) (auto simp: set_insertBy pairList_Less_def)

lemma sorted_sort_Sort:
  "sorted_wrt (\<lambda>a b. sint (qc_c b) \<le> sint (qc_c a)) (sort_Sort pairList_Less xs)"
proof (induction xs)
  case Nil
  show ?case by (simp add: sort_Sort_def)
next
  case (Cons x xs)
  then show ?case using sorted_insertBy [of "sort_Sort pairList_Less xs" x]
    by (simp add: sort_Sort_def)
qed

subsection \<open>The report\<close>

lemma showLines_sound:
  "sound w \<Longrightarrow>
     written (showLines w i n ps) = written w @ map formatLine (take (nat (n - i)) ps)
     \<and> sound (showLines w i n ps) \<and> failed (showLines w i n ps) = failed w"
proof (induction ps arbitrary: w i)
  case Nil
  then show ?case by simp
next
  case (Cons p ps)
  show ?case
  proof (cases "i \<ge> n")
    case True
    with Cons.prems show ?thesis by simp
  next
    case False
    then have m: "nat (n - i) = Suc (nat (n - (i + 1)))" by arith
    from Write_sound [OF Cons.prems, of "formatLine p"]
    obtain w' where w: "Write w (formatLine p) = (True, w')"
      and s: "sound w'"
      and wr: "written w' = written w @ [formatLine p]"
      and f: "failed w' = failed w" by blast
    from Cons.IH [OF s, of "i + 1"] False w wr f m show ?thesis
      by simp
  qed
qed

lemma rangeMap_eq:
  "set ks \<subseteq> dom sm \<Longrightarrow> rangeMap sm ks = map (\<lambda>k. \<lparr>qc_q = k, qc_c = the (sm k)\<rparr>) ks"
  by (induction ks) (auto simp: rangeMap_def List.map_filter_simps)


text \<open>
  Claim C4. With limit 0 \<open>showSummary\<close> writes nothing. With a limit above the number of
  keys, a real iteration order and a sink that takes every write, it writes one line for
  every entry of the map, in an order that is non-ascending in the (signed) count.
\<close>

theorem showSummary_ranks_all_descending:
  "showSummary w sm 0 ks = w \<and>
   (rangeOrder sm ks \<and> sound w \<and> int (card (dom sm)) < n \<longrightarrow>
     (\<exists>ranked. written (showSummary w sm n ks) = written w @ map formatLine ranked
        \<and> mset ranked = image_mset (\<lambda>k. \<lparr>qc_q = k, qc_c = the (sm k)\<rparr>) (mset_set (dom sm))
        \<and> sorted_wrt (\<lambda>a b. sint (qc_c b) \<le> sint (qc_c a)) ranked))"
proof (intro conjI impI)
  show "showSummary w sm 0 ks = w"
    by (cases "sort_Sort pairList_Less (rangeMap sm ks)") (simp_all add: showSummary_def)
next
  assume a: "rangeOrder sm ks \<and> sound w \<and> int (card (dom sm)) < n"
  define ranked where "ranked = sort_Sort pairList_Less (rangeMap sm ks)"
  from a have d: "distinct ks" and k: "set ks = dom sm" by (simp_all add: rangeOrder_def)
  have r: "rangeMap sm ks = map (\<lambda>k. \<lparr>qc_q = k, qc_c = the (sm k)\<rparr>) ks"
    using k by (simp add: rangeMap_eq)
  have m: "mset ranked = image_mset (\<lambda>k. \<lparr>qc_q = k, qc_c = the (sm k)\<rparr>) (mset_set (dom sm))"
    using d k r mset_set_set [of ks] by (simp add: ranked_def mset_sort_Sort)
  have "length ranked = card (dom sm)"
    using d k r distinct_card [of ks] mset_sort_Sort [of pairList_Less "rangeMap sm ks", THEN arg_cong, of size]
    by (simp add: ranked_def)
  moreover from a have "card (dom sm) \<le> nat n" by linarith
  ultimately have t: "take (nat (n - 0)) ranked = ranked" by simp
  have "written (showSummary w sm n ks) = written w @ map formatLine ranked"
    using showLines_sound [of w 0 n ranked] a t by (simp add: showSummary_def ranked_def)
  with m sorted_sort_Sort [of "rangeMap sm ks"]
  show "\<exists>ranked. written (showSummary w sm n ks) = written w @ map formatLine ranked
        \<and> mset ranked = image_mset (\<lambda>k. \<lparr>qc_q = k, qc_c = the (sm k)\<rparr>) (mset_set (dom sm))
        \<and> sorted_wrt (\<lambda>a b. sint (qc_c b) \<le> sint (qc_c a)) ranked"
    unfolding ranked_def by blast
qed

theorem showSummary_ranks_witness:
  "showSummary \<lparr>written = [], faults = [], failed = 0\<rparr> [''a'' \<mapsto> 1, ''b'' \<mapsto> 3, ''c'' \<mapsto> 2] 0 [''a'', ''b'', ''c'']
      = \<lparr>written = [], faults = [], failed = 0\<rparr>
   \<and> rangeOrder [''a'' \<mapsto> 1, ''b'' \<mapsto> 3, ''c'' \<mapsto> 2] [''a'', ''b'', ''c'']
   \<and> sound \<lparr>written = [], faults = [], failed = 0\<rparr>
   \<and> int (card (dom [''a'' \<mapsto> 1 :: int64, ''b'' \<mapsto> 3, ''c'' \<mapsto> 2])) < 5
   \<and> written (showSummary \<lparr>written = [], faults = [], failed = 0\<rparr>
                [''a'' \<mapsto> 1, ''b'' \<mapsto> 3, ''c'' \<mapsto> 2] 5 [''a'', ''b'', ''c''])
        = [''   3 b'' @ [CHR 0x0A], ''   2 c'' @ [CHR 0x0A], ''   1 a'' @ [CHR 0x0A]]"
proof -
  have o: "rangeOrder [''a'' \<mapsto> 1, ''b'' \<mapsto> 3, ''c'' \<mapsto> 2] [''a'', ''b'', ''c'']"
    by (auto simp: rangeOrder_def)
  have s: "sound \<lparr>written = [], faults = [], failed = 0\<rparr>" by (simp add: sound_def)
  have c: "int (card (dom [''a'' \<mapsto> 1 :: int64, ''b'' \<mapsto> 3, ''c'' \<mapsto> 2])) < 5" by simp
  have e: "written (showSummary \<lparr>written = [], faults = [], failed = 0\<rparr>
                [''a'' \<mapsto> 1, ''b'' \<mapsto> 3, ''c'' \<mapsto> 2] 5 [''a'', ''b'', ''c''])
        = [''   3 b'' @ [CHR 0x0A], ''   2 c'' @ [CHR 0x0A], ''   1 a'' @ [CHR 0x0A]]"
    by code_simp
  from showSummary_ranks_all_descending
    [of "\<lparr>written = [], faults = [], failed = 0\<rparr>" "[''a'' \<mapsto> 1, ''b'' \<mapsto> 3, ''c'' \<mapsto> 2]" "[''a'', ''b'', ''c'']" 5]
  have z: "showSummary \<lparr>written = [], faults = [], failed = 0\<rparr> [''a'' \<mapsto> 1, ''b'' \<mapsto> 3, ''c'' \<mapsto> 2] 0 [''a'', ''b'', ''c'']
      = \<lparr>written = [], faults = [], failed = 0\<rparr>" by (rule conjunct1)
  from z o s c e show ?thesis by (intro conjI)
qed

subsection \<open>Counting\<close>

lemma mapGet_addCount:
  "mapGet (addCount k n m) j = (if j = k then mapGet m k + n else mapGet m j)"
  by (simp add: addCount_def mapGet_def)

lemma dom_addCount: "dom (addCount k n m) = insert k (dom m)"
  by (simp add: addCount_def)

lemma fold_addCounts:
  "mapGet (fold (\<lambda>qc. addCount (qc_q qc) (qc_c qc)) qcs m) k
     = mapGet m k + sum_list (map qc_c (filter (\<lambda>p. qc_q p = k) qcs))
   \<and> dom (fold (\<lambda>qc. addCount (qc_q qc) (qc_c qc)) qcs m) = dom m \<union> qc_q ` set qcs"
proof (induction qcs arbitrary: m)
  case Nil
  show ?case by simp
next
  case (Cons p qcs)
  show ?case by (auto simp: Cons.IH mapGet_addCount dom_addCount)
qed

lemma countRuns_total:
  "sum_list (map qc_c (filter (\<lambda>p. qc_q p = k) (countRuns xs acc)))
     = sum_list (map qc_c (filter (\<lambda>p. qc_q p = k) acc)) + of_nat (count_list xs k)
   \<and> qc_q ` set (countRuns xs acc) = qc_q ` set acc \<union> set xs"
proof (induction xs arbitrary: acc)
  case Nil
  show ?case by simp
next
  case (Cons x xs)
  show ?case
  proof (cases "length acc > 0 \<and> qc_q (last acc) = x")
    case True
    then have "acc \<noteq> []" by auto
    then have a: "acc = butlast acc @ [last acc]" by simp
    have s: "sum_list (map qc_c (filter (\<lambda>p. qc_q p = k) acc))
        = sum_list (map qc_c (filter (\<lambda>p. qc_q p = k) (butlast acc)))
          + (if qc_q (last acc) = k then qc_c (last acc) else 0)"
      by (subst a) simp
    have i: "qc_q ` set acc = qc_q ` set (butlast acc) \<union> {qc_q (last acc)}"
      by (subst a) simp
    from True s i show ?thesis
      by (simp add: Cons.IH)
  next
    case False
    then show ?thesis by (auto simp: Cons.IH)
  qed
qed

lemma count_list_sort: "count_list (sort xs) k = count_list xs k"
proof -
  have "count (mset (sort xs)) k = count (mset xs) k" by simp
  then show ?thesis by (simp only: count_mset)
qed

lemma round_added:
  "mapGet (fold (\<lambda>qc. addCount (qc_q qc) (qc_c qc)) (countRuns (sort b) []) m) k
     = mapGet m k + of_nat (count_list b k)
   \<and> dom (fold (\<lambda>qc. addCount (qc_q qc) (qc_c qc)) (countRuns (sort b) []) m)
     = dom m \<union> set b"
  using countRuns_total [of k "sort b" "[]"]
  by (simp add: fold_addCounts count_list_sort)

lemma map_from_mapGet: "m = (\<lambda>k. if k \<in> dom m then Some (mapGet m k) else None)"
  by (auto simp: mapGet_def fun_eq_iff domIff split: option.splits)

lemma mapGet_empty: "mapGet Map.empty k = 0"
  by (simp add: mapGet_def)

lemma two_rounds_sum:
  "recentSummarizer_sum \<lparr>rs_last = n, rs_counts = [countRuns (sort b2) [], countRuns (sort b3) []]\<rparr>
    = (\<lambda>k. if k \<in> set b2 \<union> set b3
            then Some (of_nat (count_list b2 k) + of_nat (count_list b3 k)) else None)"
proof -
  let ?R = "\<lparr>rs_last = n, rs_counts = [countRuns (sort b2) [], countRuns (sort b3) []]\<rparr>"
  have m: "mapGet (recentSummarizer_sum ?R) k = of_nat (count_list b2 k) + of_nat (count_list b3 k)" for k
    by (simp add: recentSummarizer_sum_def round_added mapGet_empty)
  have d: "dom (recentSummarizer_sum ?R) = set b2 \<union> set b3"
    by (simp add: recentSummarizer_sum_def round_added)
  show ?thesis
    by (subst map_from_mapGet) (simp only: m d)
qed

text \<open>
  Claim C2. A windowed summarizer of capacity 2 that has taken three batches holds the
  rounds of the second and the third; the map its \<open>Show\<close> ranks has exactly the statements
  of those two batches, each with the sum of its occurrences in them. A statement seen in
  the first batch only is not a key of that map.
\<close>

theorem windowed_two_shows_rounds_two_and_three:
  "\<exists>s. Updates (NewSummarizer 2) [b1, b2, b3] = Some (Windowed s)
     \<and> recentSummarizer_sum s =
         (\<lambda>k. if k \<in> set b2 \<union> set b3
               then Some (of_nat (count_list b2 k) + of_nat (count_list b3 k)) else None)
     \<and> Show (Windowed s) out num ks =
         showSummary out
           (\<lambda>k. if k \<in> set b2 \<union> set b3
                 then Some (of_nat (count_list b2 k) + of_nat (count_list b3 k)) else None) num ks"
  by (simp add: NewSummarizer_def recentSummarizer_Update_def recentSummarizer_Show_def Let_def two_rounds_sum)

theorem windowed_two_witness:
  "\<exists>s. Updates (NewSummarizer 2) [[''a'', ''b''], [''b'', ''c'', ''b''], [''c'']] = Some (Windowed s)
     \<and> recentSummarizer_sum s ''a'' = None
     \<and> recentSummarizer_sum s ''b'' = Some 2
     \<and> recentSummarizer_sum s ''c'' = Some 2"
proof -
  from windowed_two_shows_rounds_two_and_three [of "[''a'', ''b'']" "[''b'', ''c'', ''b'']" "[''c'']"]
  obtain s where u: "Updates (NewSummarizer 2) [[''a'', ''b''], [''b'', ''c'', ''b''], [''c'']] = Some (Windowed s)"
    and m: "recentSummarizer_sum s =
         (\<lambda>k. if k \<in> set [''b'', ''c'', ''b''] \<union> set [''c'']
               then Some (of_nat (count_list [''b'', ''c'', ''b''] k) + of_nat (count_list [''c''] k)) else None)"
    by blast
  have "recentSummarizer_sum s ''a'' = None" "recentSummarizer_sum s ''b'' = Some 2"
    "recentSummarizer_sum s ''c'' = Some 2"
    by (simp_all add: m)
  with u show ?thesis by blast
qed

subsection \<open>What Update does to the caller's batch\<close>

lemma recentSummarizer_Update_returns:
  assumes "0 < rs_last s"
  shows "\<exists>s'. recentSummarizer_Update s batch = Some (s', sort batch)"
  using assms by (cases "rs_counts s") (auto simp: recentSummarizer_Update_def Let_def)

text \<open>
  Claim C10. The windowed \<open>Update\<close> (whenever the capacity is positive, as \<open>NewSummarizer\<close>
  makes it) returns, and the caller's slice then holds the batch sorted ascending by
  statement text: a permutation of what was passed in, and different from it whenever the
  batch was not sorted already. The cumulative \<open>Update\<close> leaves the slice as it was.
\<close>

theorem windowed_Update_sorts_the_batch_in_place:
  "(0 < rs_last s \<longrightarrow>
      (\<exists>S' batch'. Update (Windowed s) batch = Some (S', batch')
         \<and> sorted batch' \<and> mset batch' = mset batch \<and> (\<not> sorted batch \<longrightarrow> batch' \<noteq> batch)))
   \<and> (\<exists>S'. Update (Cumulative c) batch = Some (S', batch))"
proof (intro conjI impI)
  assume "0 < rs_last s"
  from recentSummarizer_Update_returns [OF this, of batch]
  obtain s' where "recentSummarizer_Update s batch = Some (s', sort batch)" by blast
  then have "Update (Windowed s) batch = Some (Windowed s', sort batch)" by simp
  moreover have "sorted (sort batch)" "mset (sort batch) = mset batch" by simp_all
  moreover have "\<not> sorted batch \<longrightarrow> sort batch \<noteq> batch"
    by (metis sorted_sort)
  ultimately show "\<exists>S' batch'. Update (Windowed s) batch = Some (S', batch')
         \<and> sorted batch' \<and> mset batch' = mset batch \<and> (\<not> sorted batch \<longrightarrow> batch' \<noteq> batch)"
    by blast
next
  show "\<exists>S'. Update (Cumulative c) batch = Some (S', batch)"
    by (simp add: summarizer_Update_def Let_def)
qed

theorem windowed_Update_sorts_witness:
  "0 < rs_last \<lparr>rs_last = 2, rs_counts = []\<rparr>
   \<and> \<not> sorted [''b'', ''a'']
   \<and> snd (the (Update (Windowed \<lparr>rs_last = 2, rs_counts = []\<rparr>) [''b'', ''a''])) = [''a'', ''b'']
   \<and> snd (the (Update (Cumulative \<lparr>s_counts = None\<rparr>) [''b'', ''a''])) = [''b'', ''a'']"
proof -
  have n: "\<not> sorted [''b'', ''a'']" by simp
  from windowed_Update_sorts_the_batch_in_place
    [of "\<lparr>rs_last = 2, rs_counts = []\<rparr>" "[''b'', ''a'']" "\<lparr>s_counts = None\<rparr>"]
  obtain S' where "Update (Cumulative \<lparr>s_counts = None\<rparr>) [''b'', ''a''] = Some (S', [''b'', ''a''])"
    by blast
  then have c: "snd (the (Update (Cumulative \<lparr>s_counts = None\<rparr>) [''b'', ''a''])) = [''b'', ''a'']"
    by simp
  have w: "snd (the (Update (Windowed \<lparr>rs_last = 2, rs_counts = []\<rparr>) [''b'', ''a''])) = [''a'', ''b'']"
    by (simp add: recentSummarizer_Update_def Let_def)
  from n c w show ?thesis by simp
qed

subsection \<open>Cumulative counting\<close>

lemma addCount_apply:
  "addCount k n m j = (if j = k then Some (mapGet m k + n) else m j)"
  by (simp add: addCount_def)

lemma fold_addCount_one:
  "fold (\<lambda>k. addCount k 1) qs m =
     (\<lambda>k. if k \<in> set qs then Some (mapGet m k + of_nat (count_list qs k)) else m k)"
proof (induction qs arbitrary: m)
  case Nil
  show ?case by simp
next
  case (Cons x qs)
  have "fold (\<lambda>k. addCount k 1) (x # qs) m = fold (\<lambda>k. addCount k 1) qs (addCount x 1 m)"
    by simp
  also have "\<dots> = (\<lambda>k. if k \<in> set qs
                        then Some (mapGet (addCount x 1 m) k + of_nat (count_list qs k))
                        else addCount x 1 m k)"
    by (rule Cons.IH)
  also have "\<dots> = (\<lambda>k. if k \<in> set (x # qs)
                        then Some (mapGet m k + of_nat (count_list (x # qs) k)) else m k)"
    by (rule ext) (simp add: mapGet_addCount addCount_apply)
  finally show ?case .
qed

lemma summarizer_Update_twice:
  "summarizer_Update (fst (summarizer_Update \<lparr>s_counts = Some Map.empty\<rparr> b1)) b2
    = (\<lparr>s_counts = Some (\<lambda>k. if k \<in> set (b1 @ b2)
                              then Some (of_nat (count_list (b1 @ b2) k)) else None)\<rparr>, b2)"
  by (auto simp: summarizer_Update_def fold_addCount_one mapGet_def fun_eq_iff)

subsection \<open>The loop\<close>

lemma Write_header_sound:
  assumes "sound w"
  shows "written (snd (Write w x)) = written w @ [x] \<and> sound (snd (Write w x))"
  using Write_sound [OF assms, of x] by auto

text \<open>
  Claim C9. Cadence 2, cumulative mode, no dump sink, a report sink that takes every write,
  three rounds whose snapshots \<open>processList\<close> returns from: nothing is printed after round 1;
  after round 2 the output is one header and the first \<open>topN\<close> ranked lines of the map
  that counts the normalized statements of rounds 1 and 2 together; round 3 adds nothing,
  and the loop is still running.
\<close>

theorem report_after_round_two_only:
  assumes "cfg_delay cfg = 2" and "cfg_last cfg \<le> 0" and "cfg_dump cfg = None" and "sound out"
    and "processList (snapshot i1) = (l1, Return q1)"
    and "processList (snapshot i2) = (l2, Return q2)"
    and "processList (snapshot i3) = (l3, Return q3)"
  shows "fst (profile cfg out [i1, i2, i3]) = Continues
    \<and> written (stdout (snd (profile cfg out [i1]))) = written out
    \<and> written (stdout (snd (profile cfg out [i1, i2]))) =
        written out @ header (now i2) #
          map formatLine (take (nat (cfg_topN cfg)) (sort_Sort pairList_Less
            (rangeMap (\<lambda>k. if k \<in> set (map normalizeQuery (q1 @ q2))
                           then Some (of_nat (count_list (map normalizeQuery (q1 @ q2)) k)) else None)
               (keyOrder i2))))
    \<and> written (stdout (snd (profile cfg out [i1, i2, i3]))) =
        written (stdout (snd (profile cfg out [i1, i2])))"
proof -
  let ?m = "\<lambda>k. if k \<in> set (map normalizeQuery (q1 @ q2))
                 then Some (of_nat (count_list (map normalizeQuery (q1 @ q2)) k)) else (None :: int64 option)"
  let ?st0 = "\<lparr>summ = Cumulative \<lparr>s_counts = Some Map.empty\<rparr>, cnt = 0, dumpSink = None,
        stdout = out, logged = []\<rparr>"
  let ?c1 = "fst (summarizer_Update \<lparr>s_counts = Some Map.empty\<rparr> (map normalizeQuery q1))"
  let ?st1 = "\<lparr>summ = Cumulative ?c1, cnt = 1, dumpSink = None, stdout = out, logged = l1\<rparr>"
  let ?o2 = "showSummary (snd (Write out (header (now i2)))) ?m (cfg_topN cfg) (keyOrder i2)"
  let ?st2 = "\<lparr>summ = Cumulative \<lparr>s_counts = Some ?m\<rparr>, cnt = 0, dumpSink = None, stdout = ?o2,
       logged = l1 @ l2\<rparr>"
  have r1: "profileRound cfg ?st0 i1 = (Continues, ?st1)"
    using assms by (simp add: profileRound_def summarizer_Update_def)
  have u2: "summarizer_Update ?c1 (map normalizeQuery q2) = (\<lparr>s_counts = Some ?m\<rparr>, map normalizeQuery q2)"
    using summarizer_Update_twice [of "map normalizeQuery q1" "map normalizeQuery q2"]
    by (simp only: map_append)
  have r2: "profileRound cfg ?st1 i2 = (Continues, ?st2)"
    using assms u2 by (simp add: profileRound_def summarizer_Show_def)
  obtain c3 where u3: "summarizer_Update \<lparr>s_counts = Some ?m\<rparr> (map normalizeQuery q3) = (c3, map normalizeQuery q3)"
    by (simp add: summarizer_Update_def)
  have r3: "profileRound cfg ?st2 i3 =
      (Continues, \<lparr>summ = Cumulative c3, cnt = 1, dumpSink = None, stdout = ?o2, logged = (l1 @ l2) @ l3\<rparr>)"
    using assms u3 by (simp add: profileRound_def)
  have p1: "profile cfg out [i1] = (Continues, ?st1)"
    using assms r1 by (simp add: profile_def NewSummarizer_def)
  have p2: "profile cfg out [i1, i2] = (Continues, ?st2)"
    using assms r1 r2 by (simp add: profile_def NewSummarizer_def)
  have p3: "profile cfg out [i1, i2, i3] =
      (Continues, \<lparr>summ = Cumulative c3, cnt = 1, dumpSink = None, stdout = ?o2, logged = (l1 @ l2) @ l3\<rparr>)"
    using assms r1 r2 r3 by (simp add: profile_def NewSummarizer_def)
  from Write_header_sound [OF \<open>sound out\<close>, of "header (now i2)"]
  have w: "written (snd (Write out (header (now i2)))) = written out @ [header (now i2)]"
    and s: "sound (snd (Write out (header (now i2))))" by simp_all
  have o2: "written ?o2 = written out @ header (now i2) #
          map formatLine (take (nat (cfg_topN cfg)) (sort_Sort pairList_Less (rangeMap ?m (keyOrder i2))))"
    using showLines_sound [OF s, of 0 "cfg_topN cfg"] w by (simp add: showSummary_def)
  from p1 p2 p3 o2 show ?thesis by simp
qed

lemma processList_exampleSnapshot:
  "processList (exampleSnapshot [''SELECT 1'', ''SELECT 2'']) = ([], Return [''SELECT 1'', ''SELECT 2''])"
  "processList (exampleSnapshot [''SELECT 3'', ''DELETE FROM t'']) = ([], Return [''SELECT 3'', ''DELETE FROM t''])"
  "processList (exampleSnapshot [''COMMIT'']) = ([], Return [''COMMIT''])"
  by code_simp+

theorem report_after_round_two_witness:
  "cfg_delay (exampleConfig None 0 2) = 2 \<and> cfg_last (exampleConfig None 0 2) \<le> 0
   \<and> cfg_dump (exampleConfig None 0 2) = None \<and> sound (exampleSink [])
   \<and> processList (snapshot (exampleRound [''SELECT 1'', ''SELECT 2''] ''t1'' []))
        = ([], Return [''SELECT 1'', ''SELECT 2''])
   \<and> processList (snapshot (exampleRound [''SELECT 3'', ''DELETE FROM t''] ''t2'' [''DELETE FROM t'', ''SELECT N'']))
        = ([], Return [''SELECT 3'', ''DELETE FROM t''])
   \<and> processList (snapshot (exampleRound [''COMMIT''] ''t3'' [])) = ([], Return [''COMMIT''])
   \<and> fst (profile (exampleConfig None 0 2) (exampleSink [])
        [exampleRound [''SELECT 1'', ''SELECT 2''] ''t1'' [],
         exampleRound [''SELECT 3'', ''DELETE FROM t''] ''t2'' [''DELETE FROM t'', ''SELECT N''],
         exampleRound [''COMMIT''] ''t3'' []]) = Continues
   \<and> written (stdout (snd (profile (exampleConfig None 0 2) (exampleSink [])
        [exampleRound [''SELECT 1'', ''SELECT 2''] ''t1'' []]))) = []
   \<and> written (stdout (snd (profile (exampleConfig None 0 2) (exampleSink [])
        [exampleRound [''SELECT 1'', ''SELECT 2''] ''t1'' [],
         exampleRound [''SELECT 3'', ''DELETE FROM t''] ''t2'' [''DELETE FROM t'', ''SELECT N''],
         exampleRound [''COMMIT''] ''t3'' []])))
       = [''##  t2'' @ [CHR 0x0A], ''   3 SELECT N'' @ [CHR 0x0A], ''   1 DELETE FROM t'' @ [CHR 0x0A]]"
proof -
  let ?cfg = "exampleConfig None 0 2"
  let ?r1 = "exampleRound [''SELECT 1'', ''SELECT 2''] ''t1'' []"
  let ?r2 = "exampleRound [''SELECT 3'', ''DELETE FROM t''] ''t2'' [''DELETE FROM t'', ''SELECT N'']"
  let ?r3 = "exampleRound [''COMMIT''] ''t3'' []"
  have c: "cfg_delay ?cfg = 2" "cfg_last ?cfg \<le> 0" "cfg_dump ?cfg = None"
    by (simp_all add: exampleConfig_def)
  have s: "sound (exampleSink [])" by (simp add: sound_def exampleSink_def)
  have p: "processList (snapshot ?r1) = ([], Return [''SELECT 1'', ''SELECT 2''])"
    "processList (snapshot ?r2) = ([], Return [''SELECT 3'', ''DELETE FROM t''])"
    "processList (snapshot ?r3) = ([], Return [''COMMIT''])"
    by (simp_all add: exampleRound_def processList_exampleSnapshot)
  from report_after_round_two_only [OF c s p]
  have g: "fst (profile ?cfg (exampleSink []) [?r1, ?r2, ?r3]) = Continues" by (rule conjunct1)
  have w1: "written (stdout (snd (profile ?cfg (exampleSink []) [?r1]))) = []"
    by code_simp
  have w3: "written (stdout (snd (profile ?cfg (exampleSink []) [?r1, ?r2, ?r3])))
       = [''##  t2'' @ [CHR 0x0A], ''   3 SELECT N'' @ [CHR 0x0A], ''   1 DELETE FROM t'' @ [CHR 0x0A]]"
    by code_simp
  from c s p g w1 w3 show ?thesis by (intro conjI)
qed

subsection \<open>Failing writes\<close>

lemma dumpQueries_failed_mono: "failed d \<le> failed (snd (dumpQueries d qs))"
proof (induction qs arbitrary: d)
  case Nil
  show ?case by simp
next
  case (Cons k ks)
  obtain ok1 d1 where w1: "Write d k = (ok1, d1)" by (cases "Write d k")
  obtain ok2 d2 where w2: "Write d1 [CHR 0x0A] = (ok2, d2)" by (cases "Write d1 [CHR 0x0A]")
  have "failed d \<le> failed d1" using Write_failed_mono [of d k] w1 by simp
  moreover have "failed d1 \<le> failed d2" using Write_failed_mono [of d1 "[CHR 0x0A]"] w2 by simp
  moreover have "failed d2 \<le> failed (snd (dumpQueries d2 ks))" by (rule Cons.IH)
  ultimately show ?case using w1 w2 by simp
qed

lemma dumpQueries_failed:
  "fst (dumpQueries d qs) \<longleftrightarrow> failed (snd (dumpQueries d qs)) = failed d"
proof (induction qs arbitrary: d)
  case Nil
  show ?case by simp
next
  case (Cons k ks)
  obtain ok1 d1 where w1: "Write d k = (ok1, d1)" by (cases "Write d k")
  obtain ok2 d2 where w2: "Write d1 [CHR 0x0A] = (ok2, d2)" by (cases "Write d1 [CHR 0x0A]")
  have f1: "ok1 \<longleftrightarrow> failed d1 = failed d" and m1: "failed d \<le> failed d1"
    using Write_failed [of d k] Write_failed_mono [of d k] w1 by simp_all
  have f2: "ok2 \<longleftrightarrow> failed d2 = failed d1" and m2: "failed d1 \<le> failed d2"
    using Write_failed [of d1 "[CHR 0x0A]"] Write_failed_mono [of d1 "[CHR 0x0A]"] w2 by simp_all
  have m3: "failed d2 \<le> failed (snd (dumpQueries d2 ks))" by (rule dumpQueries_failed_mono)
  from Cons.IH [of d2] f1 f2 m1 m2 m3 w1 w2 show ?case by auto
qed

lemma dump_failure_returns:
  assumes "dumpSink st = Some d" and "processList (snapshot inp) = (lg, Return qs)"
    and "\<not> fst (dumpQueries d qs)"
  shows "profileLoop cfg st (inp # inps) =
     (Returned, st\<lparr>logged := logged st @ lg, dumpSink := Some (snd (dumpQueries d qs))\<rparr>)"
proof -
  obtain ok d' where q: "dumpQueries d qs = (ok, d')" by (cases "dumpQueries d qs")
  with assms show ?thesis by (simp add: profileRound_def Let_def)
qed

lemma profileRound_stdout:
  "fst (profileRound cfg (st\<lparr>stdout := out'\<rparr>) inp) = fst (profileRound cfg st inp)
   \<and> (snd (profileRound cfg (st\<lparr>stdout := out'\<rparr>) inp))\<lparr>stdout := z\<rparr>
       = (snd (profileRound cfg st inp))\<lparr>stdout := z\<rparr>"
  by (auto simp: profileRound_def Let_def split: prod.splits ending.splits option.splits)

lemma profileLoop_stdout:
  "fst (profileLoop cfg (st\<lparr>stdout := out'\<rparr>) inps) = fst (profileLoop cfg st inps)"
proof (induction inps arbitrary: st out')
  case Nil
  show ?case by simp
next
  case (Cons inp inps)
  obtain s st1 where p: "profileRound cfg st inp = (s, st1)" by (cases "profileRound cfg st inp")
  obtain s' st1' where p': "profileRound cfg (st\<lparr>stdout := out'\<rparr>) inp = (s', st1')"
    by (cases "profileRound cfg (st\<lparr>stdout := out'\<rparr>) inp")
  from profileRound_stdout [where cfg = cfg and st = st and out' = out' and inp = inp and z = "stdout st1'"] p p'
  have e: "s' = s" and "st1' = st1\<lparr>stdout := stdout st1'\<rparr>" by simp_all
  then have "fst (profileLoop cfg st1' inps) = fst (profileLoop cfg st1 inps)"
    using Cons.IH [where st = st1 and out' = "stdout st1'"] by simp
  with p p' e show ?case by (cases s) simp_all
qed

lemma showLines_stops:
  assumes "i < n" and "\<not> fst (Write w (formatLine p))"
  shows "showLines w i n (p # ps) = snd (Write w (formatLine p))"
proof -
  obtain ok w' where q: "Write w (formatLine p) = (ok, w')" by (cases "Write w (formatLine p)")
  with assms show ?thesis by simp
qed

text \<open>
  Claim C1, amended. A failed write to the raw-dump sink makes \<open>profile\<close> return in that
  iteration, whatever rounds would follow. A failed write to the report sink does not end
  the loop: how the loop ends does not depend on the report sink at all, and the failed
  write only ends the printing of that report (\<open>showLines\<close> returns at once).
\<close>

theorem dump_failure_ends_the_loop_report_failure_does_not:
  "(dumpSink st = Some d \<and> processList (snapshot inp) = (lg, Return qs)
      \<and> failed (snd (dumpQueries d qs)) \<noteq> failed d
     \<longrightarrow> fst (profileLoop cfg st (inp # inps)) = Returned)
   \<and> fst (profileLoop cfg (st\<lparr>stdout := out'\<rparr>) inps) = fst (profileLoop cfg st inps)
   \<and> (i < n \<and> failed (snd (Write w (formatLine p))) \<noteq> failed w
     \<longrightarrow> showLines w i n (p # ps) = snd (Write w (formatLine p)))"
  using dump_failure_returns [of st d inp lg qs cfg inps] dumpQueries_failed [of d qs]
    profileLoop_stdout [where cfg = cfg and st = st and out' = out' and inps = inps] showLines_stops [of i n w p ps]
    Write_failed [of w "formatLine p"]
  by simp

theorem dump_failure_witness:
  "dumpSink \<lparr>summ = NewSummarizer 0, cnt = 0, dumpSink = Some (exampleSink [False, True]),
             stdout = exampleSink [], logged = []\<rparr> = Some (exampleSink [False, True])
   \<and> processList (snapshot (exampleRound [''SELECT 1''] ''t1'' [''SELECT N''])) = ([], Return [''SELECT 1''])
   \<and> failed (snd (dumpQueries (exampleSink [False, True]) [''SELECT 1'']))
        \<noteq> failed (exampleSink [False, True])
   \<and> fst (profileLoop (exampleConfig (Some (exampleSink [False, True])) 0 1)
        \<lparr>summ = NewSummarizer 0, cnt = 0, dumpSink = Some (exampleSink [False, True]),
             stdout = exampleSink [], logged = []\<rparr>
        [exampleRound [''SELECT 1''] ''t1'' [''SELECT N''],
         exampleRound [''SELECT 2''] ''t2'' [''SELECT N'']]) = Returned
   \<and> (0::int) < 10
   \<and> failed (snd (Write (exampleSink [True]) (formatLine \<lparr>qc_q = ''SELECT N'', qc_c = 2\<rparr>)))
        \<noteq> failed (exampleSink [True])
   \<and> showLines (exampleSink [True]) 0 10 [\<lparr>qc_q = ''SELECT N'', qc_c = 2\<rparr>, \<lparr>qc_q = ''COMMIT'', qc_c = 1\<rparr>]
       = \<lparr>written = [], faults = [], failed = 1\<rparr>"
proof -
  let ?st = "\<lparr>summ = NewSummarizer 0, cnt = 0, dumpSink = Some (exampleSink [False, True]),
             stdout = exampleSink [], logged = []\<rparr>"
  have a: "dumpSink ?st = Some (exampleSink [False, True])" by simp
  have b: "processList (snapshot (exampleRound [''SELECT 1''] ''t1'' [''SELECT N''])) = ([], Return [''SELECT 1''])"
    by code_simp
  have c: "failed (snd (dumpQueries (exampleSink [False, True]) [''SELECT 1'']))
        \<noteq> failed (exampleSink [False, True])"
    by code_simp
  have d: "(0::int) < 10" by simp
  have e: "failed (snd (Write (exampleSink [True]) (formatLine \<lparr>qc_q = ''SELECT N'', qc_c = 2\<rparr>)))
        \<noteq> failed (exampleSink [True])"
    by code_simp
  have f: "snd (Write (exampleSink [True]) (formatLine \<lparr>qc_q = ''SELECT N'', qc_c = 2\<rparr>))
      = \<lparr>written = [], faults = [], failed = 1\<rparr>"
    by code_simp
  from dump_failure_ends_the_loop_report_failure_does_not
    [where st = ?st and d = "exampleSink [False, True]"
       and inp = "exampleRound [''SELECT 1''] ''t1'' [''SELECT N'']" and lg = "[]" and qs = "[''SELECT 1'']"
       and cfg = "exampleConfig (Some (exampleSink [False, True])) 0 1"
       and inps = "[exampleRound [''SELECT 2''] ''t2'' [''SELECT N'']]"
       and i = 0 and n = 10 and w = "exampleSink [True]" and p = "\<lparr>qc_q = ''SELECT N'', qc_c = 2\<rparr>"
       and ps = "[\<lparr>qc_q = ''COMMIT'', qc_c = 1\<rparr>]"]
    a b c d e f
  show ?thesis by simp
qed

text \<open>
  Claim C1 as stated fails for the report sink: here the first report line of round 1
  fails to be written, and round 2 runs all the same and prints its report.
\<close>

theorem report_failure_counterexample:
  "failed (stdout (snd (profile (exampleConfig None 0 1) (exampleSink [False, True])
        [exampleRound [''SELECT 1''] ''t1'' [''SELECT N'']]))) = 1
   \<and> fst (profile (exampleConfig None 0 1) (exampleSink [False, True])
        [exampleRound [''SELECT 1''] ''t1'' [''SELECT N''],
         exampleRound [''SELECT 2''] ''t2'' [''SELECT N'']]) = Continues
   \<and> stdout (snd (profile (exampleConfig None 0 1) (exampleSink [False, True])
        [exampleRound [''SELECT 1''] ''t1'' [''SELECT N''],
         exampleRound [''SELECT 2''] ''t2'' [''SELECT N'']]))
       = \<lparr>written = [''##  t1'' @ [CHR 0x0A], ''##  t2'' @ [CHR 0x0A],
                     ''   2 SELECT N'' @ [CHR 0x0A]],
          faults = [], failed = 1\<rparr>"
  by (intro conjI; code_simp)

subsection \<open>Rounds that cannot end the loop\<close>



lemma Update_wellFormed:
  assumes "wellFormed S"
  shows "\<exists>S' b'. Update S b = Some (S', b') \<and> wellFormed S'"
proof (cases S)
  case (Cumulative c)
  then show ?thesis by (simp add: summarizer_Update_def)
next
  case (Windowed s)
  with assms have "0 < rs_last s" by simp
  from recentSummarizer_Update_returns [OF this, of b]
  obtain s' where u: "recentSummarizer_Update s b = Some (s', sort b)" by blast
  then have "rs_last s' = rs_last s"
    by (auto simp: recentSummarizer_Update_def Let_def split: if_splits list.splits)
  with u Windowed \<open>0 < rs_last s\<close> show ?thesis by simp
qed

lemma dumpQueries_sound:
  assumes "sound d"
  shows "\<exists>d'. dumpQueries d qs = (True, d') \<and> sound d'"
  using assms
proof (induction qs arbitrary: d)
  case Nil
  then show ?case by simp
next
  case (Cons k ks)
  from Write_sound [OF Cons.prems, of k]
  obtain d1 where w1: "Write d k = (True, d1)" and s1: "sound d1" by blast
  from Write_sound [OF s1, of "[CHR 0x0A]"]
  obtain d2 where w2: "Write d1 [CHR 0x0A] = (True, d2)" and s2: "sound d2" by blast
  from Cons.IH [OF s2] w1 w2 show ?case by simp
qed

lemma profileRound_continues:
  assumes "wellFormed (summ st)" and "processList (snapshot inp) = (lg, Return qs)"
    and "qs = [] \<or> dumpSound (dumpSink st)"
  shows "\<exists>st'. profileRound cfg st inp = (Continues, st') \<and> wellFormed (summ st')
            \<and> (dumpSound (dumpSink st) \<longrightarrow> dumpSound (dumpSink st'))"
proof -
  from Update_wellFormed [OF assms(1), of "map normalizeQuery qs"]
  obtain S' b' where u: "Update (summ st) (map normalizeQuery qs) = Some (S', b')"
    and w: "wellFormed S'" by blast
  show ?thesis
  proof (cases "dumpSink st")
    case None
    with assms u w show ?thesis by (simp add: profileRound_def Let_def dumpSound_def)
  next
    case (Some d)
    have "\<exists>d'. dumpQueries d qs = (True, d') \<and> (sound d \<longrightarrow> sound d')"
    proof (cases "qs = []")
      case True
      then show ?thesis by simp
    next
      case False
      with assms(3) Some have "sound d" by (simp add: dumpSound_def)
      from dumpQueries_sound [OF this, of qs] show ?thesis by blast
    qed
    then obtain d' where "dumpQueries d qs = (True, d')" and "sound d \<longrightarrow> sound d'" by blast
    with assms u w Some show ?thesis by (simp add: profileRound_def Let_def dumpSound_def)
  qed
qed

lemma profileRound_keeps_wellFormed:
  assumes "profileRound cfg st inp = (Continues, st')" and "wellFormed (summ st)"
  shows "wellFormed (summ st')"
proof -
  obtain lg res where p: "processList (snapshot inp) = (lg, res)"
    by (cases "processList (snapshot inp)")
  show ?thesis
  proof (cases res)
    case (Return qs)
    from Update_wellFormed [OF assms(2), of "map normalizeQuery qs"]
    obtain S' b' where u: "Update (summ st) (map normalizeQuery qs) = Some (S', b')"
      and w: "wellFormed S'" by blast
    with assms p Return show ?thesis
      by (auto simp: profileRound_def Let_def split: option.splits prod.splits if_splits)
  next
    case Panic
    with assms p show ?thesis by (simp add: profileRound_def)
  next
    case Exit
    with assms p show ?thesis by (simp add: profileRound_def)
  qed
qed

lemma profileRound_keeps_dumpSound:
  assumes "profileRound cfg st inp = (Continues, st')" and "dumpSound (dumpSink st)"
  shows "dumpSound (dumpSink st')"
proof -
  obtain lg res where p: "processList (snapshot inp) = (lg, res)"
    by (cases "processList (snapshot inp)")
  show ?thesis
  proof (cases res)
    case (Return qs)
    show ?thesis
    proof (cases "dumpSink st")
      case None
      with assms p Return show ?thesis
        by (auto simp: profileRound_def Let_def dumpSound_def split: option.splits prod.splits if_splits)
    next
      case (Some d)
      with assms have "sound d" by (simp add: dumpSound_def)
      from dumpQueries_sound [OF this, of qs]
      obtain d' where "dumpQueries d qs = (True, d')" and "sound d'" by blast
      with assms p Return Some show ?thesis
        by (auto simp: profileRound_def Let_def dumpSound_def split: option.splits prod.splits if_splits)
    qed
  next
    case Panic
    with assms p show ?thesis by (simp add: profileRound_def)
  next
    case Exit
    with assms p show ?thesis by (simp add: profileRound_def)
  qed
qed

lemma profileLoop_invariant:
  assumes "profileLoop cfg st inps = (Continues, st')" and "wellFormed (summ st)"
  shows "wellFormed (summ st') \<and> (dumpSound (dumpSink st) \<longrightarrow> dumpSound (dumpSink st'))"
  using assms
proof (induction inps arbitrary: st)
  case Nil
  then show ?case by simp
next
  case (Cons inp inps)
  obtain s st1 where r: "profileRound cfg st inp = (s, st1)" by (cases "profileRound cfg st inp")
  with Cons.prems have s: "s = Continues" and l: "profileLoop cfg st1 inps = (Continues, st')"
    by (cases s; simp)+
  from r s Cons.prems profileRound_keeps_wellFormed [of cfg st inp st1]
  have w1: "wellFormed (summ st1)" by simp
  from r s profileRound_keeps_dumpSound [of cfg st inp st1]
  have d1: "dumpSound (dumpSink st) \<longrightarrow> dumpSound (dumpSink st1)" by simp
  from Cons.IH [OF l w1] d1 show ?case by simp
qed

lemma profileLoop_snoc:
  "profileLoop cfg st (inps @ [inp]) =
     (case profileLoop cfg st inps of
        (Continues, st') \<Rightarrow> profileLoop cfg st' [inp]
      | (Returned, st') \<Rightarrow> (Returned, st')
      | (Panicked, st') \<Rightarrow> (Panicked, st')
      | (Exited, st') \<Rightarrow> (Exited, st'))"
proof (induction inps arbitrary: st)
  case Nil
  show ?case by simp
next
  case (Cons a inps)
  obtain s st1 where r: "profileRound cfg st a = (s, st1)" by (cases "profileRound cfg st a")
  show ?case using r Cons.IH [of st1] by (cases s) simp_all
qed

lemma wellFormed_NewSummarizer: "wellFormed (NewSummarizer n)"
  by (simp add: NewSummarizer_def)

lemma profile_goes_on:
  assumes "fst (profile cfg out inps) = Continues"
    and "processList (snapshot inp) = (lg, Return qs)"
    and "qs = [] \<or> dumpSound (cfg_dump cfg)"
  shows "fst (profile cfg out (inps @ [inp])) = Continues"
proof -
  let ?st0 = "\<lparr>summ = NewSummarizer (cfg_last cfg), cnt = 0, dumpSink = cfg_dump cfg,
        stdout = out, logged = []\<rparr>"
  obtain st' where l: "profileLoop cfg ?st0 inps = (Continues, st')"
    using assms(1) by (cases "profileLoop cfg ?st0 inps") (simp add: profile_def)
  from profileLoop_invariant [OF l] wellFormed_NewSummarizer
  have w: "wellFormed (summ st')" and d: "dumpSound (cfg_dump cfg) \<longrightarrow> dumpSound (dumpSink st')"
    by simp_all
  from assms(3) d have "qs = [] \<or> dumpSound (dumpSink st')" by blast
  from profileRound_continues [OF w assms(2) this, of cfg]
  obtain st'' where "profileRound cfg st' inp = (Continues, st'')" by blast
  with l show ?thesis by (simp add: profile_def profileLoop_snoc)
qed

lemma processList_skips_bad_row:
  assumes "rows_columns rows = Inr cs" and "length cs = 8 \<or> length cs = 9"
    and "rows_next rows = rs1 @ ScanError e # rs2"
  shows "\<exists>lg1 lg2 qs. processList (QueryRows rows) = (lg1 @ LogError e # lg2, Return qs)
          \<and> snd (processList (QueryRows (rows\<lparr>rows_next := rs1 @ rs2\<rparr>))) = Return qs"
proof -
  have "rows_columns (rows\<lparr>rows_next := rs1 @ rs2\<rparr>) = Inr cs" using assms(1) by simp
  from processList_rows [OF assms(1,2)] processList_rows [OF this assms(2)] assms(3)
  show ?thesis by simp blast
qed

text \<open>
  Claim C7. A failed snapshot query is logged and gives the empty batch. A row that fails
  to decode is logged and the batch is that of the other rows. In both cases a loop that
  was running is still running after the round (for the rows, given a dump sink that
  takes every write, or none).
\<close>

theorem snapshot_errors_do_not_end_the_loop:
  "processList (QueryError e) = ([LogError e], Return [])
   \<and> (rows_columns rows = Inr cs \<and> (length cs = 8 \<or> length cs = 9)
        \<and> rows_next rows = rs1 @ ScanError e' # rs2 \<longrightarrow>
      (\<exists>lg1 lg2 qs. processList (QueryRows rows) = (lg1 @ LogError e' # lg2, Return qs)
          \<and> snd (processList (QueryRows (rows\<lparr>rows_next := rs1 @ rs2\<rparr>))) = Return qs))
   \<and> (fst (profile cfg out inps) = Continues \<and> snapshot inp = QueryError e
        \<longrightarrow> fst (profile cfg out (inps @ [inp])) = Continues)
   \<and> (fst (profile cfg out inps) = Continues \<and> snapshot inp = QueryRows rows
        \<and> rows_columns rows = Inr cs \<and> (length cs = 8 \<or> length cs = 9)
        \<and> dumpSound (cfg_dump cfg)
        \<longrightarrow> fst (profile cfg out (inps @ [inp])) = Continues)"
proof (intro conjI impI)
  show q: "processList (QueryError e) = ([LogError e], Return [])"
    by (simp add: processList_def)
  {
    assume "fst (profile cfg out inps) = Continues \<and> snapshot inp = QueryError e"
    with q profile_goes_on [of cfg out inps inp "[LogError e]" "[]"]
    show "fst (profile cfg out (inps @ [inp])) = Continues" by simp
  }
  {
    assume "rows_columns rows = Inr cs \<and> (length cs = 8 \<or> length cs = 9)
        \<and> rows_next rows = rs1 @ ScanError e' # rs2"
    with processList_skips_bad_row [of rows cs rs1 e' rs2]
    show "\<exists>lg1 lg2 qs. processList (QueryRows rows) = (lg1 @ LogError e' # lg2, Return qs)
          \<and> snd (processList (QueryRows (rows\<lparr>rows_next := rs1 @ rs2\<rparr>))) = Return qs" by blast
  }
  {
    assume a: "fst (profile cfg out inps) = Continues \<and> snapshot inp = QueryRows rows
        \<and> rows_columns rows = Inr cs \<and> (length cs = 8 \<or> length cs = 9)
        \<and> dumpSound (cfg_dump cfg)"
    then have "rows_columns rows = Inr cs" "length cs = 8 \<or> length cs = 9" by simp_all
    from processList_rows [OF this] a
      profile_goes_on [of cfg out inps inp _ _]
    show "fst (profile cfg out (inps @ [inp])) = Continues" by simp
  }
qed

theorem snapshot_errors_witness:
  "fst (profile (exampleConfig (Some (exampleSink [])) 2 1) (exampleSink [])
         [exampleRound [''SELECT 1''] ''t1'' [''SELECT N'']]) = Continues
   \<and> snapshot \<lparr>snapshot = QueryError ''connection lost'', now = ''t2'', keyOrder = [''SELECT N'']\<rparr>
       = QueryError ''connection lost''
   \<and> fst (profile (exampleConfig (Some (exampleSink [])) 2 1) (exampleSink [])
         ([exampleRound [''SELECT 1''] ''t1'' [''SELECT N'']]
          @ [\<lparr>snapshot = QueryError ''connection lost'', now = ''t2'', keyOrder = [''SELECT N'']\<rparr>]))
       = Continues
   \<and> rows_columns \<lparr>rows_columns = Inr exampleColumns,
         rows_next = [ScanInfo (Some ''SELECT 1'')] @ ScanError ''bad row'' # [ScanInfo (Some ''COMMIT'')],
         rows_close = None\<rparr> = Inr exampleColumns
   \<and> length exampleColumns = 8
   \<and> dumpSound (cfg_dump (exampleConfig (Some (exampleSink [])) 2 1))
   \<and> processList (QueryRows \<lparr>rows_columns = Inr exampleColumns,
         rows_next = [ScanInfo (Some ''SELECT 1'')] @ ScanError ''bad row'' # [ScanInfo (Some ''COMMIT'')],
         rows_close = None\<rparr>) = ([LogError ''bad row''], Return [''SELECT 1'', ''COMMIT''])
   \<and> fst (profile (exampleConfig (Some (exampleSink [])) 2 1) (exampleSink [])
         ([exampleRound [''SELECT 1''] ''t1'' [''SELECT N'']]
          @ [\<lparr>snapshot = QueryRows \<lparr>rows_columns = Inr exampleColumns,
                 rows_next = [ScanInfo (Some ''SELECT 1'')] @ ScanError ''bad row'' # [ScanInfo (Some ''COMMIT'')],
                 rows_close = None\<rparr>, now = ''t2'', keyOrder = [''SELECT N'', ''COMMIT'']\<rparr>]))
       = Continues"
proof -
  let ?cfg = "exampleConfig (Some (exampleSink [])) 2 1"
  let ?r1 = "exampleRound [''SELECT 1''] ''t1'' [''SELECT N'']"
  let ?rows = "\<lparr>rows_columns = Inr exampleColumns,
         rows_next = [ScanInfo (Some ''SELECT 1'')] @ ScanError ''bad row'' # [ScanInfo (Some ''COMMIT'')],
         rows_close = None\<rparr>"
  let ?e = "\<lparr>snapshot = QueryError ''connection lost'', now = ''t2'', keyOrder = [''SELECT N'']\<rparr>"
  let ?b = "\<lparr>snapshot = QueryRows ?rows, now = ''t2'', keyOrder = [''SELECT N'', ''COMMIT'']\<rparr>"
  have a: "fst (profile ?cfg (exampleSink []) [?r1]) = Continues" by code_simp
  have b: "snapshot ?e = QueryError ''connection lost''" by simp
  have c: "rows_columns ?rows = Inr exampleColumns" by simp
  have d: "length exampleColumns = 8" by (simp add: exampleColumns_def)
  have e: "dumpSound (cfg_dump ?cfg)" by (simp add: dumpSound_def exampleConfig_def exampleSink_def sound_def)
  have f: "processList (QueryRows ?rows) = ([LogError ''bad row''], Return [''SELECT 1'', ''COMMIT''])"
    by code_simp
  have g: "snapshot ?b = QueryRows ?rows" by simp
  from snapshot_errors_do_not_end_the_loop
    [where cfg = ?cfg and out = "exampleSink []" and inps = "[?r1]" and inp = ?e
       and e = "''connection lost''"]
    a b
  have h: "fst (profile ?cfg (exampleSink []) ([?r1] @ [?e])) = Continues" by blast
  from snapshot_errors_do_not_end_the_loop
    [where cfg = ?cfg and out = "exampleSink []" and inps = "[?r1]" and inp = ?b
       and rows = ?rows and cs = exampleColumns]
    a g c d e
  have i: "fst (profile ?cfg (exampleSink []) ([?r1] @ [?b])) = Continues" by blast
  from a b c d e f h i show ?thesis by (intro conjI)
qed

subsection \<open>Replacing all matches\<close>

lemma replaceAll_Nil:
  "rmatch rx (prev, []) = [] \<Longrightarrow> replaceAll rx repl just prev [] = []"
  by (subst replaceAll.simps) simp

lemma replaceAll_skip:
  "rmatch rx (prev, ch # cs) = [] \<Longrightarrow>
   replaceAll rx repl just prev (ch # cs) = ch # replaceAll rx repl False (Some ch) cs"
  by (subst replaceAll.simps) simp

lemma replaceAll_hit:
  "rmatch rx (prev, s) = cur' # others \<Longrightarrow> length (snd cur') < length s \<Longrightarrow>
   replaceAll rx repl just prev s = repl @ replaceAll rx repl True (fst cur') (snd cur')"
  by (subst replaceAll.simps) simp

subsection \<open>Quoted literals\<close>

lemma quoted_body:
  "qt \<notin> set body \<Longrightarrow> length (body @ qt # post) \<le> k \<Longrightarrow>
   concat (map (rmatch (Chars [qt])) (starN (rmatch (NotChars [qt])) k (prev, body @ qt # post)))
     = [(Some qt, post)]"
proof (induction body arbitrary: k prev)
  case Nil
  then obtain k' where "k = Suc k'" by (cases k) auto
  then show ?case by simp
next
  case (Cons b body)
  then obtain k' where k: "k = Suc k'" by (cases k) auto
  with Cons.prems have "concat (map (rmatch (Chars [qt]))
      (starN (rmatch (NotChars [qt])) k' (Some b, body @ qt # post))) = [(Some qt, post)]"
    using Cons.IH [of k' "Some b"] by simp
  with Cons.prems k show ?case by auto
qed

lemma quoted_match:
  assumes "body \<noteq> []" and "qt \<notin> set body"
  shows "rmatch (Seq (Chars [qt]) (Seq (Plus (NotChars [qt])) (Chars [qt])))
           (prev, qt # body @ qt # post) = [(Some qt, post)]"
proof -
  from assms obtain b bs where b: "body = b # bs" by (cases body) auto
  with assms have "concat (map (rmatch (Chars [qt]))
      (starN (rmatch (NotChars [qt])) (length (bs @ qt # post)) (Some b, bs @ qt # post)))
      = [(Some qt, post)]"
    using quoted_body [of qt bs post "length (bs @ qt # post)" "Some b"] by simp
  with assms b show ?thesis by auto
qed

lemma quoted_no_match:
  "s = [] \<or> hd s \<noteq> qt \<Longrightarrow>
   rmatch (Seq (Chars [qt]) (Seq (Plus (NotChars [qt])) (Chars [qt]))) (prev, s) = []"
  by (cases s) auto



subsection \<open>Matches are suffixes\<close>

lemma starN_suffix:
  assumes "\<And>cur cur'. cur' \<in> set (f cur) \<Longrightarrow> suffix (snd cur') (snd cur)"
  shows "cur' \<in> set (starN f k cur) \<Longrightarrow> suffix (snd cur') (snd cur)"
proof (induction k arbitrary: cur)
  case 0
  then show ?case by simp
next
  case (Suc k)
  from Suc.prems consider "cur' = cur"
    | mid where "mid \<in> set (f cur)" "cur' \<in> set (starN f k mid)" by auto
  then show ?case
  proof cases
    case 1
    then show ?thesis by simp
  next
    case 2
    from Suc.IH [OF 2(2)] assms [OF 2(1)] show ?thesis by (rule suffix_order.trans)
  qed
qed

lemma repeatN_suffix:
  assumes "\<And>cur cur'. cur' \<in> set (f cur) \<Longrightarrow> suffix (snd cur') (snd cur)"
  shows "cur' \<in> set (repeatN f n cur) \<Longrightarrow> suffix (snd cur') (snd cur)"
proof (induction n arbitrary: cur)
  case 0
  then show ?case by simp
next
  case (Suc n)
  from Suc.prems obtain mid where m: "mid \<in> set (f cur)" "cur' \<in> set (repeatN f n mid)" by auto
  from Suc.IH [OF m(2)] assms [OF m(1)] show ?case by (rule suffix_order.trans)
qed

lemma rmatch_suffix:
  "cur' \<in> set (rmatch rx cur) \<Longrightarrow> suffix (snd cur') (snd cur)"
proof (induction rx arbitrary: cur cur')
  case (Chars cs)
  then show ?case by (cases "snd cur") (auto simp: suffix_Cons split: if_splits)
next
  case (NotChars cs)
  then show ?case by (cases "snd cur") (auto simp: suffix_Cons split: if_splits)
next
  case WordBoundary
  then show ?case by (auto split: if_splits)
next
  case (Seq a b)
  from Seq.prems obtain mid where "mid \<in> set (rmatch a cur)" "cur' \<in> set (rmatch b mid)" by auto
  with Seq.IH show ?case by (blast intro: suffix_order.trans)
next
  case (Opt a)
  from Opt.prems have "cur' \<in> set (rmatch a cur) \<or> cur' = cur" by auto
  then show ?case using Opt.IH [of cur' cur] by blast
next
  case (Star a)
  from Star.prems have "cur' \<in> set (starN (rmatch a) (length (snd cur)) cur)" by simp
  then show ?case using Star.IH starN_suffix [of "rmatch a" cur' "length (snd cur)" cur] by blast
next
  case (Plus a)
  from Plus.prems obtain mid where m: "mid \<in> set (rmatch a cur)"
    "cur' \<in> set (starN (rmatch a) (length (snd mid)) mid)" by auto
  from m(2) have "suffix (snd cur') (snd mid)"
    using Plus.IH starN_suffix [of "rmatch a" cur' "length (snd mid)" mid] by blast
  with Plus.IH [OF m(1)] show ?case by (blast intro: suffix_order.trans)
next
  case (AtLeast n a)
  from AtLeast.prems obtain mid where m: "mid \<in> set (repeatN (rmatch a) n cur)"
    "cur' \<in> set (starN (rmatch a) (length (snd mid)) mid)" by auto
  from m(2) have "suffix (snd cur') (snd mid)"
    using AtLeast.IH starN_suffix [of "rmatch a" cur' "length (snd mid)" mid] by blast
  moreover from m(1) have "suffix (snd mid) (snd cur)"
    using AtLeast.IH repeatN_suffix [of "rmatch a" mid n cur] by blast
  ultimately show ?case by (blast intro: suffix_order.trans)
qed

lemma rmatch_after_Chars:
  assumes "cur' \<in> set (rmatch (Seq (Chars cs) rx) (prev, s))"
  shows "length (snd cur') < length s"
proof -
  from assms obtain mid where m: "mid \<in> set (rmatch (Chars cs) (prev, s))" "cur' \<in> set (rmatch rx mid)"
    by auto
  from m(1) have "length (snd mid) < length s" by (auto split: list.splits if_splits)
  moreover from rmatch_suffix [OF m(2)] have "length (snd cur') \<le> length (snd mid)"
    by (rule suffix_length_le)
  ultimately show ?thesis by simp
qed

lemma rmatch_Chars_first: "rmatch (Seq (Chars cs) rx) (prev, s) = rmatch (Seq (Chars cs) rx) (prev', s)"
  by (cases s) simp_all

lemma replaceAll_independent:
  assumes "rmatch rx (prev, s) = rmatch rx (prev', s)"
    and "\<And>cur'. cur' \<in> set (rmatch rx (prev, s)) \<Longrightarrow> length (snd cur') < length s"
  shows "replaceAll rx repl just prev s = replaceAll rx repl just' prev' s"
proof (cases "rmatch rx (prev, s)")
  case Nil
  with assms(1) show ?thesis
    by (subst (1 2) replaceAll.simps) simp
next
  case (Cons cur' others)
  with assms(2) [of cur'] have "length (snd cur') < length s" by simp
  with Cons assms(1) show ?thesis
    by (subst (1 2) replaceAll.simps) simp
qed


subsection \<open>Runs of one character class\<close>

lemma concat_map_concat_map:
  "concat (map (\<lambda>x. concat (map g (f x))) xs) = concat (map g (concat (map f xs)))"
  by (induction xs) simp_all

lemma starN_Chars_then:
  assumes "set cs \<inter> set ds = {}" and "length s \<le> k"
  shows "concat (map (rmatch (Chars ds)) (starN (rmatch (Chars cs)) k (prev, s)))
     = (case dropWhile (\<lambda>x. x \<in> set cs) s of
          [] \<Rightarrow> []
        | d # r \<Rightarrow> if d \<in> set ds then [(Some d, r)] else [])"
  using assms(2)
proof (induction s arbitrary: k prev)
  case Nil
  then show ?case by (cases k) simp_all
next
  case (Cons ch s)
  then obtain k' where k: "k = Suc k'" and l: "length s \<le> k'" by (cases k) auto
  show ?case
  proof (cases "ch \<in> set cs")
    case True
    with assms(1) have "ch \<notin> set ds" by auto
    with True k Cons.IH [OF l, of "Some ch"] show ?thesis by simp
  next
    case False
    with k show ?thesis by simp
  qed
qed

lemma starN_Chars_head:
  assumes "length s \<le> k"
  shows "\<exists>prev' others. starN (rmatch (Chars cs)) k (prev, s)
            = (prev', dropWhile (\<lambda>x. x \<in> set cs) s) # others
          \<and> (\<forall>cur \<in> set others. snd cur \<noteq> [] \<and> hd (snd cur) \<in> set cs)"
  using assms
proof (induction s arbitrary: k prev)
  case Nil
  then show ?case by (cases k) simp_all
next
  case (Cons ch s)
  then obtain k' where k: "k = Suc k'" and l: "length s \<le> k'" by (cases k) auto
  show ?case
  proof (cases "ch \<in> set cs")
    case True
    from Cons.IH [OF l, of "Some ch"] obtain prev' others
      where "starN (rmatch (Chars cs)) k' (Some ch, s) = (prev', dropWhile (\<lambda>x. x \<in> set cs) s) # others"
        and "\<forall>cur \<in> set others. snd cur \<noteq> [] \<and> hd (snd cur) \<in> set cs" by blast
    with True k show ?thesis by simp
  next
    case False
    with k show ?thesis by simp
  qed
qed

subsection \<open>One list item\<close>

lemma isSpace_fun: "isSpace = (\<lambda>x. x \<in> set spaceChars)"
  by (simp add: fun_eq_iff isSpace_def)

lemma itemRest_None:
  assumes "itemRest s = None"
  shows "rmatch reListItem (prev, s) = []"
proof (cases s)
  case Nil
  then show ?thesis by (simp add: reListItem_def)
next
  case (Cons ch s1)
  show ?thesis
  proof (cases "ch \<in> set ''NS''")
    case False
    with Cons show ?thesis by (simp add: reListItem_def)
  next
    case True
    have d: "set spaceChars \<inter> set '','' = {}" by (simp add: spaceChars_def)
    have n: "(case dropWhile (\<lambda>x. x \<in> set spaceChars) s1 of [] \<Rightarrow> []
              | d # r \<Rightarrow> if d \<in> set '','' then [(Some d, r)] else []) = []"
    proof (cases "dropWhile (\<lambda>x. x \<in> set spaceChars) s1")
      case Nil
      then show ?thesis by (simp only: list.case)
    next
      case (Cons d r)
      with assms \<open>s = ch # s1\<close> True have "d \<noteq> CHR '',''"
        by (simp add: itemRest_def isSpace_fun split: if_splits)
      with Cons show ?thesis by simp
    qed
    have "rmatch reListItem (prev, s)
        = concat (map (rmatch (Star (Chars spaceChars)))
            (concat (map (rmatch (Chars '','')) (starN (rmatch (Chars spaceChars)) (length s1) (Some ch, s1)))))"
      using Cons True by (simp add: reListItem_def concat_map_concat_map)
    also have "\<dots> = []"
      using starN_Chars_then [OF d, of s1 "length s1" "Some ch"] n by simp
    finally show ?thesis .
  qed
qed

lemma itemRest_Some:
  assumes "itemRest s = Some r"
  shows "\<exists>prev' others. rmatch reListItem (prev, s) = (prev', r) # others
           \<and> (\<forall>cur \<in> set others. dead cur)"
proof -
  from assms obtain ch s1 s2 where s: "s = ch # s1" and c: "ch \<in> set ''NS''"
    and d: "dropWhile (\<lambda>x. x \<in> set spaceChars) s1 = CHR '','' # s2"
    and r: "r = dropWhile (\<lambda>x. x \<in> set spaceChars) s2"
    by (auto simp: itemRest_def isSpace_fun split: list.splits if_splits)
  have dj: "set spaceChars \<inter> set '','' = {}" by (simp add: spaceChars_def)
  have "rmatch reListItem (prev, s)
        = concat (map (rmatch (Star (Chars spaceChars)))
            (concat (map (rmatch (Chars '','')) (starN (rmatch (Chars spaceChars)) (length s1) (Some ch, s1)))))"
    using s c by (simp add: reListItem_def concat_map_concat_map)
  also have "\<dots> = starN (rmatch (Chars spaceChars)) (length s2) (Some CHR '','', s2)"
    using starN_Chars_then [OF dj, of s1 "length s1" "Some ch"] d by simp
  finally have e: "rmatch reListItem (prev, s) = starN (rmatch (Chars spaceChars)) (length s2) (Some CHR '','', s2)" .
  from starN_Chars_head [of s2 "length s2" spaceChars "Some CHR '',''"] r e
  show ?thesis by (simp add: dead_def isSpace_fun)
qed

lemma itemRest_shorter:
  assumes "itemRest s = Some r"
  shows "length r < length s"
proof -
  from assms obtain ch s1 s2 where s: "s = ch # s1"
    and d: "dropWhile isSpace s1 = CHR '','' # s2"
    and r: "r = dropWhile isSpace s2"
    by (auto simp: itemRest_def split: list.splits if_splits)
  have "length (dropWhile isSpace s1) \<le> length s1" by (rule length_dropWhile_le)
  with d have "length s2 < length s1" by simp
  moreover have "length r \<le> length s2" unfolding r by (rule length_dropWhile_le)
  ultimately show ?thesis using s by simp
qed

lemma itemRest_dead: "dead cur \<Longrightarrow> itemRest (snd cur) = None"
  by (cases "snd cur") (auto simp: dead_def itemRest_def isSpace_fun spaceChars_def)

lemma rmatch_dead: "dead cur \<Longrightarrow> rmatch reListItem cur = []"
  using itemRest_None [of "snd cur" "fst cur"] itemRest_dead [of cur] by simp

subsection \<open>Four or more list items\<close>

lemma repeatN_dead:
  assumes "\<forall>cur \<in> set curs. dead cur"
  shows "concat (map (repeatN (rmatch reListItem) (Suc n)) curs) = []"
  using assms by (induction curs) (simp_all add: rmatch_dead)

lemma repeatN_zero: "concat (map (repeatN f 0) curs) = curs"
  by (induction curs) simp_all

lemma four: "(4::nat) = Suc 3"
  by simp

lemma rmatch_reList:
  "rmatch reList cur =
     concat (map (\<lambda>cur'. starN (rmatch reListItem) (length (snd cur')) cur')
       (repeatN (rmatch reListItem) (Suc 3) cur))"
  by (simp only: reList_def rmatch.simps four)

lemma repeatN_items_None:
  "items (Suc n) s = None \<Longrightarrow> repeatN (rmatch reListItem) (Suc n) (prev, s) = []"
proof (induction n arbitrary: s prev)
  case 0
  then have "itemRest s = None" by (simp split: option.splits)
  then show ?case by (simp add: itemRest_None)
next
  case (Suc n)
  show ?case
  proof (cases "itemRest s")
    case None
    then show ?thesis by (simp add: itemRest_None)
  next
    case (Some r)
    from itemRest_Some [OF Some, of prev] obtain prev' others
      where m: "rmatch reListItem (prev, s) = (prev', r) # others" and d: "\<forall>cur \<in> set others. dead cur"
      by blast
    from Suc.prems Some have "items (Suc n) r = None" by simp
    from Suc.IH [OF this, of prev'] have "repeatN (rmatch reListItem) (Suc n) (prev', r) = []" .
    with m repeatN_dead [OF d, of n] show ?thesis by simp
  qed
qed

lemma repeatN_items_Some:
  "items (Suc n) s = Some r \<Longrightarrow>
   \<exists>prev' others. repeatN (rmatch reListItem) (Suc n) (prev, s) = (prev', r) # others
      \<and> (\<forall>cur \<in> set others. dead cur)"
proof (induction n arbitrary: s prev)
  case 0
  then have "itemRest s = Some r" by (simp split: option.splits)
  from itemRest_Some [OF this, of prev] show ?case by (simp add: repeatN_zero)
next
  case (Suc n)
  from Suc.prems obtain r1 where i: "itemRest s = Some r1" and j: "items (Suc n) r1 = Some r"
    by (simp split: option.splits)
  from itemRest_Some [OF i, of prev] obtain prev1 others1
    where m: "rmatch reListItem (prev, s) = (prev1, r1) # others1" and d: "\<forall>cur \<in> set others1. dead cur"
    by blast
  from Suc.IH [OF j, of prev1] obtain prev' others
    where "repeatN (rmatch reListItem) (Suc n) (prev1, r1) = (prev', r) # others"
      and "\<forall>cur \<in> set others. dead cur" by blast
  with m repeatN_dead [OF d, of n] show ?case by simp
qed

lemma starN_items:
  "\<exists>prev' others. starN (rmatch reListItem) k (prev, r) = (prev', skipItems k r) # others"
proof (induction k arbitrary: prev r)
  case 0
  show ?case by simp
next
  case (Suc k)
  show ?case
  proof (cases "itemRest r")
    case None
    then show ?thesis by (simp add: itemRest_None)
  next
    case (Some r1)
    from itemRest_Some [OF Some, of prev] obtain prev1 others1
      where m: "rmatch reListItem (prev, r) = (prev1, r1) # others1" by blast
    from Suc.IH [of prev1 r1] obtain prev' others
      where "starN (rmatch reListItem) k (prev1, r1) = (prev', skipItems k r1) # others" by blast
    with m Some itemRest_shorter [OF Some] show ?thesis by simp
  qed
qed

lemma listMatch_None:
  assumes "listMatch s = None"
  shows "rmatch reList (prev, s) = []"
proof -
  from assms have "items 4 s = None"
    by (simp add: listMatch_def split: option.splits)
  then have "items (Suc 3) s = None" by (simp only: four)
  from repeatN_items_None [OF this, of prev] show ?thesis
    by (simp only: rmatch_reList list.map concat.simps)
qed

lemma listMatch_Some:
  assumes "listMatch s = Some r"
  shows "\<exists>prev' others. rmatch reList (prev, s) = (prev', r) # others"
proof -
  from assms obtain r4 where "items 4 s = Some r4" and r: "r = skipItems (length r4) r4"
    by (auto simp: listMatch_def split: option.splits)
  then have i: "items (Suc 3) s = Some r4" by (simp only: four)
  from repeatN_items_Some [OF i, of prev] obtain prev4 others4
    where m: "repeatN (rmatch reListItem) (Suc 3) (prev, s) = (prev4, r4) # others4" by blast
  from starN_items [of "length r4" prev4 r4] obtain prev' others
    where "starN (rmatch reListItem) (length r4) (prev4, r4) = (prev', r) # others"
    using r by blast
  with m show ?thesis by (simp only: rmatch_reList list.map concat.simps snd_conv) simp
qed

lemma items_shorter: "items (Suc n) s = Some r \<Longrightarrow> length r < length s"
proof (induction n arbitrary: s)
  case 0
  then have "itemRest s = Some r" by (simp split: option.splits)
  then show ?case by (rule itemRest_shorter)
next
  case (Suc n)
  from Suc.prems obtain r1 where i: "itemRest s = Some r1" and j: "items (Suc n) r1 = Some r"
    by (simp split: option.splits)
  from Suc.IH [OF j] itemRest_shorter [OF i] show ?case by simp
qed

lemma skipItems_length: "length (skipItems k r) \<le> length r"
proof (induction k arbitrary: r)
  case 0
  show ?case by simp
next
  case (Suc k)
  show ?case
  proof (cases "itemRest r")
    case None
    then show ?thesis by simp
  next
    case (Some r1)
    with Suc.IH [of r1] itemRest_shorter [OF Some] show ?thesis by simp
  qed
qed

lemma listMatch_shorter:
  assumes "listMatch s = Some r"
  shows "length r < length s"
proof -
  from assms obtain r4 where "items 4 s = Some r4" and r: "r = skipItems (length r4) r4"
    by (auto simp: listMatch_def split: option.splits)
  then have i: "items (Suc 3) s = Some r4" by (simp only: four)
  from items_shorter [OF i] skipItems_length [of "length r4" r4] r show ?thesis by simp
qed

lemma listMatch_head:
  assumes "listMatch s = Some r"
  shows "\<exists>ch cs. s = ch # cs \<and> ch \<in> set ''NS''"
proof -
  from assms obtain r4 where "items 4 s = Some r4"
    by (auto simp: listMatch_def split: option.splits)
  then have "items (Suc 3) s = Some r4" by (simp only: four)
  then obtain r1 where "itemRest s = Some r1"
    by (cases "itemRest s") (simp_all only: items.simps option.case option.distinct)
  then show ?thesis by (cases s) (auto simp: itemRest_def split: if_splits)
qed

subsection \<open>Folding the lists\<close>

lemma foldLists_Nil: "replaceAll reList repl just prev [] = []"
proof (rule replaceAll_Nil)
  have "items (Suc 3) [] = None" by (simp only: items.simps) (simp add: itemRest_def)
  then have "listMatch [] = None" by (simp only: listMatch_def four option.case)
  then show "rmatch reList (prev, []) = []" by (rule listMatch_None)
qed

lemma foldLists_skip:
  "listMatch (ch # cs) = None \<Longrightarrow>
   replaceAll reList repl just prev (ch # cs) = ch # replaceAll reList repl False (Some ch) cs"
  by (rule replaceAll_skip) (rule listMatch_None)

lemma foldLists_hit:
  assumes "listMatch s = Some r"
  shows "\<exists>prev'. replaceAll reList repl just prev s = repl @ replaceAll reList repl True prev' r"
proof -
  from listMatch_Some [OF assms, of prev] obtain prev' others
    where m: "rmatch reList (prev, s) = (prev', r) # others" by blast
  from replaceAll_hit [OF m, of repl just] listMatch_shorter [OF assms]
  show ?thesis by auto
qed

lemma rmatch_reList_prev: "rmatch reList (prev, s) = rmatch reList (prev', s)"
proof -
  have "rmatch reListItem (prev, s) = rmatch reListItem (prev', s)"
    unfolding reListItem_def by (rule rmatch_Chars_first)
  then show ?thesis by (simp only: rmatch_reList repeatN.simps)
qed

lemma foldLists_independent:
  "replaceAll reList repl just prev s = replaceAll reList repl just' prev' s"
proof (rule replaceAll_independent [OF rmatch_reList_prev])
  fix cur'
  assume a: "cur' \<in> set (rmatch reList (prev, s))"
  show "length (snd cur') < length s"
  proof (cases "listMatch s")
    case None
    with a listMatch_None [of s prev] show ?thesis by simp
  next
    case (Some r)
    from a obtain mid where m: "mid \<in> set (repeatN (rmatch reListItem) (Suc 3) (prev, s))"
      and c: "cur' \<in> set (starN (rmatch reListItem) (length (snd mid)) mid)"
      by (auto simp: rmatch_reList simp del: repeatN.simps)
    from m obtain mid1 where m1: "mid1 \<in> set (rmatch reListItem (prev, s))"
      and m2: "mid \<in> set (repeatN (rmatch reListItem) 3 mid1)"
      by (auto simp only: repeatN.simps set_concat set_map)
    from m1 have "length (snd mid1) < length s"
      unfolding reListItem_def by (rule rmatch_after_Chars)
    moreover from m2 have "suffix (snd mid) (snd mid1)"
      using repeatN_suffix [of "rmatch reListItem" mid 3 mid1] rmatch_suffix by blast
    moreover from c have "suffix (snd cur') (snd mid)"
      using starN_suffix [of "rmatch reListItem" cur' "length (snd mid)" mid] rmatch_suffix by blast
    ultimately show ?thesis
      using suffix_length_le [of "snd mid" "snd mid1"] suffix_length_le [of "snd cur'" "snd mid"]
      by simp
  qed
qed

subsection \<open>Folding once is enough\<close>

lemma folded_dropWhile_comma:
  assumes "folded s t" and "dropWhile isSpace t = d # t2" and "d \<noteq> CHR ''.''"
  shows "\<exists>s2. dropWhile isSpace s = d # s2 \<and> folded s2 t2"
  using assms
proof (induction rule: folded.induct)
  case folded_Nil
  then show ?case by simp
next
  case (folded_copy s t ch)
  show ?case
  proof (cases "isSpace ch")
    case True
    with folded_copy show ?thesis by simp
  next
    case False
    with folded_copy show ?thesis by auto
  qed
next
  case (folded_list ch s t)
  then show ?case by (auto simp: isSpace_def spaceChars_def)
qed

lemma folded_dropWhile:
  assumes "folded s t"
  shows "folded (dropWhile isSpace s) (dropWhile isSpace t)"
  using assms
proof (induction rule: folded.induct)
  case folded_Nil
  show ?case by (simp add: folded.folded_Nil)
next
  case (folded_copy s t ch)
  then show ?case by (cases "isSpace ch") (simp_all add: folded.folded_copy)
next
  case (folded_list ch s t)
  then have "\<not> isSpace ch" by (auto simp: isSpace_def spaceChars_def)
  moreover have "\<not> isSpace CHR ''.''" by (simp add: isSpace_def spaceChars_def)
  ultimately show ?case using folded.folded_list [OF folded_list, of s t] by simp
qed

lemma folded_itemRest:
  assumes "folded s t" and "itemRest t = Some r'"
  shows "\<exists>r. itemRest s = Some r \<and> folded r r'"
proof -
  from assms(2) obtain ch t1 t2 where t: "t = ch # t1" and c: "ch \<in> set ''NS''"
    and d: "dropWhile isSpace t1 = CHR '','' # t2" and r: "r' = dropWhile isSpace t2"
    by (auto simp: itemRest_def split: list.splits if_splits)
  from assms(1) t c obtain s1 where s: "s = ch # s1" and f1: "folded s1 t1"
    by (cases rule: folded.cases) auto
  from folded_dropWhile_comma [OF f1 d] obtain s2
    where d2: "dropWhile isSpace s1 = CHR '','' # s2" and f2: "folded s2 t2" by auto
  from s c d2 have "itemRest s = Some (dropWhile isSpace s2)" by (simp add: itemRest_def)
  with folded_dropWhile [OF f2] r show ?thesis by simp
qed

lemma folded_items:
  "folded s t \<Longrightarrow> items n t = Some r' \<Longrightarrow> \<exists>r. items n s = Some r \<and> folded r r'"
proof (induction n arbitrary: s t)
  case 0
  then show ?case by simp
next
  case (Suc n)
  from Suc.prems(2) obtain t1 where i: "itemRest t = Some t1" and j: "items n t1 = Some r'"
    by (simp split: option.splits)
  from folded_itemRest [OF Suc.prems(1) i] obtain s1
    where "itemRest s = Some s1" and "folded s1 t1" by blast
  with Suc.IH [OF _ j] show ?case by simp
qed

lemma folded_listMatch:
  assumes "folded s t" and "listMatch s = None"
  shows "listMatch t = None"
proof (cases "items 4 t")
  case None
  then show ?thesis by (simp add: listMatch_def)
next
  case (Some r')
  from folded_items [OF assms(1) Some] assms(2) show ?thesis
    by (auto simp: listMatch_def)
qed

lemma foldLists_simps:
  "foldLists [] = []"
  "listMatch (ch # cs) = None \<Longrightarrow> foldLists (ch # cs) = ch # foldLists cs"
  "listMatch s = Some r \<Longrightarrow> foldLists s = ''...'' @ foldLists r"
proof -
  show "foldLists [] = []" by (simp add: foldLists_def foldLists_Nil)
  show "listMatch (ch # cs) = None \<Longrightarrow> foldLists (ch # cs) = ch # foldLists cs"
    using foldLists_independent [of "''...''" False "Some ch" cs False None]
    by (simp add: foldLists_def foldLists_skip)
  show "listMatch s = Some r \<Longrightarrow> foldLists s = ''...'' @ foldLists r"
    using foldLists_hit [of s r "''...''" False None] foldLists_independent [of "''...''" True _ r False None]
    by (auto simp: foldLists_def)
qed

lemma folded_foldLists: "folded s (foldLists s)"
proof (induction s)
  case Nil
  show ?case by (simp add: foldLists_simps folded_Nil)
next
  case (Cons ch cs)
  show ?case
  proof (cases "listMatch (ch # cs)")
    case None
    with Cons show ?thesis by (simp add: foldLists_simps folded_copy)
  next
    case (Some r)
    from listMatch_head [OF Some] have "ch \<in> set ''NS''" by simp
    from folded_list [OF this, of cs "foldLists r"] Some show ?thesis
      by (simp add: foldLists_simps)
  qed
qed

lemma listMatch_dot: "listMatch (CHR ''.'' # s) = None"
proof -
  have "items (Suc 3) (CHR ''.'' # s) = None" by (simp only: items.simps) (simp add: itemRest_def)
  then show ?thesis by (simp only: listMatch_def four option.case)
qed

lemma foldLists_idem: "foldLists (foldLists s) = foldLists s"
proof (induction s rule: length_induct)
  case (1 s)
  show ?case
  proof (cases "listMatch s")
    case (Some r)
    from listMatch_shorter [OF Some] 1 have "foldLists (foldLists r) = foldLists r" by simp
    with Some show ?thesis by (simp add: foldLists_simps listMatch_dot)
  next
    case None
    show ?thesis
    proof (cases s)
      case Nil
      then show ?thesis by (simp add: foldLists_simps)
    next
      case (Cons ch cs)
      with 1 have i: "foldLists (foldLists cs) = foldLists cs" by simp
      from folded_copy [OF folded_foldLists [of cs], of ch] None Cons
      have "listMatch (ch # foldLists cs) = None" by (auto intro: folded_listMatch)
      with None Cons i show ?thesis by (simp add: foldLists_simps)
    qed
  qed
qed

subsection \<open>Single spaces\<close>

lemma noDoubleSpace_Cons:
  "noDoubleSpace (a # s) \<longleftrightarrow> noDoubleSpace s \<and> (a = CHR '' '' \<longrightarrow> s = [] \<or> hd s \<noteq> CHR '' '')"
  by (cases s) auto

lemma noDoubleSpace_append: "noDoubleSpace (xs @ ys) \<Longrightarrow> noDoubleSpace ys"
  by (induction xs) (auto simp: noDoubleSpace_Cons)

lemma noDoubleSpace_suffix: "suffix ys xs \<Longrightarrow> noDoubleSpace xs \<Longrightarrow> noDoubleSpace ys"
  by (auto simp: suffix_def dest: noDoubleSpace_append)

lemma listMatch_suffix:
  assumes "listMatch s = Some r"
  shows "suffix r s"
proof -
  from listMatch_Some [OF assms, of None] obtain prev' others
    where "rmatch reList (None, s) = (prev', r) # others" by blast
  then have "(prev', r) \<in> set (rmatch reList (None, s))" by simp
  from rmatch_suffix [OF this] show ?thesis by simp
qed

lemma foldLists_head:
  "foldLists s = [] \<or> hd (foldLists s) = CHR ''.'' \<or> (s \<noteq> [] \<and> hd (foldLists s) = hd s)"
proof (cases "listMatch s")
  case (Some r)
  then show ?thesis by (simp add: foldLists_simps)
next
  case None
  then show ?thesis by (cases s) (simp_all add: foldLists_simps)
qed

lemma foldLists_noDoubleSpace: "noDoubleSpace s \<Longrightarrow> noDoubleSpace (foldLists s)"
proof (induction s rule: length_induct)
  case (1 s)
  show ?case
  proof (cases "listMatch s")
    case (Some r)
    from noDoubleSpace_suffix [OF listMatch_suffix [OF Some] "1.prems"] listMatch_shorter [OF Some] "1.IH"
    have "noDoubleSpace (foldLists r)" by simp
    with Some show ?thesis by (simp add: foldLists_simps noDoubleSpace_Cons)
  next
    case None
    show ?thesis
    proof (cases s)
      case Nil
      then show ?thesis by (simp add: foldLists_simps)
    next
      case (Cons ch cs)
      with "1.prems" have n: "noDoubleSpace cs" and h: "ch = CHR '' '' \<longrightarrow> cs = [] \<or> hd cs \<noteq> CHR '' ''"
        by (simp_all add: noDoubleSpace_Cons)
      from n Cons "1.IH" have "noDoubleSpace (foldLists cs)" by simp
      moreover from h foldLists_head [of cs]
      have "ch = CHR '' '' \<longrightarrow> foldLists cs = [] \<or> hd (foldLists cs) \<noteq> CHR '' ''" by auto
      ultimately show ?thesis using None Cons by (simp add: foldLists_simps noDoubleSpace_Cons)
    qed
  qed
qed

lemma rmatch_reSpaces_none: "s = [] \<or> hd s \<noteq> CHR '' '' \<Longrightarrow> rmatch reSpaces (prev, s) = []"
  by (cases s) (auto simp: reSpaces_def)

lemma rmatch_reSpaces_some:
  "\<exists>prev' others. rmatch reSpaces (prev, CHR '' '' # cs)
      = (prev', dropWhile (\<lambda>x. x \<in> set '' '') cs) # others"
  using starN_Chars_head [of cs "length cs" "'' ''" "Some CHR '' ''"]
  by (auto simp: reSpaces_def)

lemma rmatch_reSpaces_prev: "rmatch reSpaces (prev, s) = rmatch reSpaces (prev', s)"
  by (cases s) (simp_all add: reSpaces_def)

lemma rmatch_reSpaces_shorter:
  assumes "cur' \<in> set (rmatch reSpaces (prev, s))"
  shows "length (snd cur') < length s"
proof -
  from assms obtain mid where m: "mid \<in> set (rmatch (Chars '' '') (prev, s))"
    and c: "cur' \<in> set (starN (rmatch (Chars '' '')) (length (snd mid)) mid)"
    by (auto simp: reSpaces_def)
  from m have "length (snd mid) < length s" by (auto split: list.splits if_splits)
  moreover from c have "suffix (snd cur') (snd mid)"
    using starN_suffix [of "rmatch (Chars '' '')" cur' "length (snd mid)" mid] rmatch_suffix by blast
  ultimately show ?thesis using suffix_length_le [of "snd cur'" "snd mid"] by simp
qed

lemma oneSpace_independent: "replaceAll reSpaces repl just prev s = replaceAll reSpaces repl just' prev' s"
  by (rule replaceAll_independent [OF rmatch_reSpaces_prev rmatch_reSpaces_shorter])

lemma oneSpace_simps:
  "oneSpace [] = []"
  "ch \<noteq> CHR '' '' \<Longrightarrow> oneSpace (ch # cs) = ch # oneSpace cs"
  "oneSpace (CHR '' '' # cs) = CHR '' '' # oneSpace (dropWhile (\<lambda>x. x = CHR '' '') cs)"
proof -
  show "oneSpace [] = []"
    by (simp add: oneSpace_def replaceAll_Nil rmatch_reSpaces_none)
  show "ch \<noteq> CHR '' '' \<Longrightarrow> oneSpace (ch # cs) = ch # oneSpace cs"
    using oneSpace_independent [of "'' ''" False "Some ch" cs False None]
    by (simp add: oneSpace_def replaceAll_skip rmatch_reSpaces_none)
  from rmatch_reSpaces_some [of None cs] obtain prev' others
    where m: "rmatch reSpaces (None, CHR '' '' # cs) = (prev', dropWhile (\<lambda>x. x = CHR '' '') cs) # others"
    by auto
  have "length (dropWhile (\<lambda>x. x = CHR '' '') cs) \<le> length cs" by (rule length_dropWhile_le)
  with replaceAll_hit [OF m, of "'' ''" False]
    oneSpace_independent [of "'' ''" True prev' "dropWhile (\<lambda>x. x = CHR '' '') cs" False None]
  show "oneSpace (CHR '' '' # cs) = CHR '' '' # oneSpace (dropWhile (\<lambda>x. x = CHR '' '') cs)"
    by (simp add: oneSpace_def)
qed

lemma oneSpace_noDoubleSpace: "noDoubleSpace (oneSpace s)"
proof (induction s rule: length_induct)
  case (1 s)
  show ?case
  proof (cases s)
    case Nil
    then show ?thesis by (simp add: oneSpace_simps)
  next
    case (Cons ch cs)
    show ?thesis
    proof (cases "ch = CHR '' ''")
      case False
      with Cons 1 show ?thesis by (simp add: oneSpace_simps noDoubleSpace_Cons)
    next
      case True
      define r where "r = dropWhile (\<lambda>x. x = CHR '' '') cs"
      have l: "length r \<le> length cs" unfolding r_def by (rule length_dropWhile_le)
      with Cons 1 have n: "noDoubleSpace (oneSpace r)" by simp
      have "oneSpace r = [] \<or> hd (oneSpace r) \<noteq> CHR '' ''"
      proof (cases r)
        case Nil
        then show ?thesis by (simp add: oneSpace_simps)
      next
        case (Cons d ds)
        then have "d \<noteq> CHR '' ''"
          using hd_dropWhile [of "\<lambda>x. x = CHR '' ''" cs] unfolding r_def by auto
        with Cons show ?thesis by (simp add: oneSpace_simps)
      qed
      then have "oneSpace (CHR '' '' # cs) = CHR '' '' # oneSpace r"
        "oneSpace r = [] \<or> hd (oneSpace r) \<noteq> CHR '' ''"
        unfolding r_def by (simp_all only: oneSpace_simps)
      with n True Cons show ?thesis by (simp add: oneSpace_simps noDoubleSpace_Cons)
    qed
  qed
qed

lemma oneSpace_id: "noDoubleSpace s \<Longrightarrow> oneSpace s = s"
proof (induction s)
  case Nil
  show ?case by (simp add: oneSpace_simps)
next
  case (Cons ch cs)
  then have n: "oneSpace cs = cs" and h: "ch = CHR '' '' \<longrightarrow> cs = [] \<or> hd cs \<noteq> CHR '' ''"
    by (simp_all add: noDoubleSpace_Cons)
  show ?case
  proof (cases "ch = CHR '' ''")
    case False
    with n show ?thesis by (simp add: oneSpace_simps)
  next
    case True
    with h have "dropWhile (\<lambda>x. x = CHR '' '') cs = cs" by (cases cs) auto
    with True n show ?thesis by (simp add: oneSpace_simps)
  qed
qed

subsection \<open>What a replacement is made of\<close>


lemma rmatch_Plus_none:
  "s = [] \<or> hd s \<notin> set cs \<Longrightarrow> rmatch (Plus (Chars cs)) (prev, s) = []"
  by (cases s) auto

subsection \<open>No pattern of the table matches the empty string\<close>

text \<open>
  So \<open>replaceAll\<close> never reaches its branch for empty matches on a rule of the table: each
  match consumes at least one character.
\<close>

lemma rmatch_Seq_iff:
  "cur' \<in> set (rmatch (Seq a b) cur) \<longleftrightarrow> (\<exists>mid \<in> set (rmatch a cur). cur' \<in> set (rmatch b mid))"
  by simp

lemma rmatch_Plus_iff:
  "cur' \<in> set (rmatch (Plus a) cur) \<longleftrightarrow>
     (\<exists>mid \<in> set (rmatch a cur). cur' \<in> set (starN (rmatch a) (length (snd mid)) mid))"
  by simp

lemma rmatch_Chars_shorter:
  "mid \<in> set (rmatch (Chars cs) cur) \<Longrightarrow> length (snd mid) < length (snd cur)"
  by (cases "snd cur") (auto split: if_splits)

lemma rmatch_Plus_Chars_shorter:
  assumes "cur' \<in> set (rmatch (Plus (Chars cs)) cur)"
  shows "length (snd cur') < length (snd cur)"
proof -
  from assms obtain mid where m: "mid \<in> set (rmatch (Chars cs) cur)"
    and c: "cur' \<in> set (starN (rmatch (Chars cs)) (length (snd mid)) mid)"
    unfolding rmatch_Plus_iff by blast
  from m have "length (snd mid) < length (snd cur)" by (rule rmatch_Chars_shorter)
  moreover from c have "suffix (snd cur') (snd mid)"
    using starN_suffix [of "rmatch (Chars cs)" cur' "length (snd mid)" mid] rmatch_suffix by blast
  ultimately show ?thesis using suffix_length_le [of "snd cur'" "snd mid"] by simp
qed

lemma rmatch_reInteger_shorter:
  assumes "cur' \<in> set (rmatch reInteger (prev, s))"
  shows "length (snd cur') < length s"
proof -
  from assms obtain m1 m2 m3 where a: "m1 \<in> set (rmatch (Opt (Chars ''+-'')) (prev, s))"
    and b: "m2 \<in> set (rmatch WordBoundary m1)"
    and c: "m3 \<in> set (rmatch (Plus (Chars digitChars)) m2)"
    and d: "cur' \<in> set (rmatch WordBoundary m3)"
    unfolding reInteger_def rmatch_Seq_iff by blast
  from rmatch_suffix [OF a] have "length (snd m1) \<le> length s" using suffix_length_le by fastforce
  moreover from rmatch_suffix [OF b] have "length (snd m2) \<le> length (snd m1)" by (rule suffix_length_le)
  moreover from rmatch_Plus_Chars_shorter [OF c] have "length (snd m3) < length (snd m2)" .
  moreover from rmatch_suffix [OF d] have "length (snd cur') \<le> length (snd m3)" by (rule suffix_length_le)
  ultimately show ?thesis by simp
qed

lemma rmatch_reHex_shorter:
  assumes "cur' \<in> set (rmatch reHex (prev, s))"
  shows "length (snd cur') < length s"
proof -
  from assms obtain m1 where a: "m1 \<in> set (rmatch WordBoundary (prev, s))"
    and b: "cur' \<in> set (rmatch (Seq (Chars ''0'') (Seq (Chars ''x'')
       (Seq (Plus (Chars hexChars)) WordBoundary))) m1)"
    unfolding reHex_def rmatch_Seq_iff [of cur' WordBoundary] by blast
  from a have "m1 = (prev, s)" by (auto split: if_splits)
  with b rmatch_after_Chars show ?thesis by blast
qed

lemma rmatch_reList_shorter:
  assumes "cur' \<in> set (rmatch reList (prev, s))"
  shows "length (snd cur') < length s"
proof -
  from assms obtain mid where m: "mid \<in> set (repeatN (rmatch reListItem) (Suc 3) (prev, s))"
    and c: "cur' \<in> set (starN (rmatch reListItem) (length (snd mid)) mid)"
    by (auto simp: rmatch_reList simp del: repeatN.simps)
  from m obtain mid1 where m1: "mid1 \<in> set (rmatch reListItem (prev, s))"
    and m2: "mid \<in> set (repeatN (rmatch reListItem) 3 mid1)"
    by (auto simp only: repeatN.simps set_concat set_map)
  from m1 have "length (snd mid1) < length s"
    unfolding reListItem_def by (rule rmatch_after_Chars)
  moreover from m2 have "suffix (snd mid) (snd mid1)"
    using repeatN_suffix [of "rmatch reListItem" mid 3 mid1] rmatch_suffix by blast
  moreover from c have "suffix (snd cur') (snd mid)"
    using starN_suffix [of "rmatch reListItem" cur' "length (snd mid)" mid] rmatch_suffix by blast
  ultimately show ?thesis
    using suffix_length_le [of "snd mid" "snd mid1"] suffix_length_le [of "snd cur'" "snd mid"]
    by simp
qed

lemma table_matches_consume:
  assumes "p \<in> set normalizePatterns" and "cur' \<in> set (rmatch (re p) (prev, s))"
  shows "length (snd cur') < length s"
proof -
  from assms(1) consider "re p = reSpaces" | "re p = reInteger" | "re p = reHex"
    | "re p = reEscSquote" | "re p = reEscDquote" | "re p = reSquoted" | "re p = reDquoted"
    | "re p = reList"
    by (auto simp: normalizePatterns_def)
  then show ?thesis
  proof cases
    case 1
    with assms(2) show ?thesis by (simp add: rmatch_reSpaces_shorter)
  next
    case 2
    with assms(2) show ?thesis by (simp add: rmatch_reInteger_shorter)
  next
    case 3
    with assms(2) show ?thesis by (simp add: rmatch_reHex_shorter)
  next
    case 4
    with assms(2) show ?thesis unfolding reEscSquote_def by (simp only: rmatch_after_Chars)
  next
    case 5
    with assms(2) show ?thesis unfolding reEscDquote_def by (simp only: rmatch_after_Chars)
  next
    case 6
    with assms(2) show ?thesis unfolding reSquoted_def by (simp only: rmatch_after_Chars)
  next
    case 7
    with assms(2) show ?thesis unfolding reDquoted_def by (simp only: rmatch_after_Chars)
  next
    case 8
    with assms(2) show ?thesis by (simp add: rmatch_reList_shorter)
  qed
qed

subsection \<open>Text that stays free of literals\<close>

lemma bump_bump: "bump (bump g) = bump g"
  by (simp add: bump_def)

lemma isSpace_inert:
  assumes "isSpace ch"
  shows "ch \<notin> set digitChars" "ch \<noteq> squote" "ch \<noteq> dquote" "ch \<noteq> backslash" "\<not> isWordChar ch"
  using assms
  by (auto simp: isSpace_def spaceChars_def digitChars_def squote_def dquote_def backslash_def
      isWordChar_def)

lemma tidy_Nil: "tidy wb esc sq dq []"
  by (simp add: tidy_def)

lemma tidy_inert:
  assumes "ch \<notin> set digitChars" "ch \<noteq> squote" "ch \<noteq> dquote" "ch \<noteq> backslash"
  shows "tidy wb esc sq dq (ch # cs) = tidy (isWordChar ch) False (bump sq) (bump dq) cs"
  using assms by (simp add: tidy_def)

lemma tidy_space:
  "isSpace ch \<Longrightarrow> tidy wb esc sq dq (ch # cs) = tidy False False (bump sq) (bump dq) cs"
  using tidy_inert [of ch wb esc sq dq cs] isSpace_inert [of ch] by simp

lemma tidy_step:
  "tidy wb esc sq dq (ch # cs) \<Longrightarrow>
   tidy (isWordChar ch) (ch = backslash)
     (if ch = squote then Opened else bump sq) (if ch = dquote then Opened else bump dq) cs"
  by (simp add: tidy_def split: if_splits)

lemma tidy_copy:
  "tidy wb esc sq dq (ch # cs) \<Longrightarrow>
   tidy (isWordChar ch) (ch = backslash)
     (if ch = squote then Opened else bump sq) (if ch = dquote then Opened else bump dq) t \<Longrightarrow>
   tidy wb esc sq dq (ch # t)"
  by (auto simp: tidy_def squote_def dquote_def split: if_splits)

lemma tidy_dropWhile:
  "tidy False False (bump sq) (bump dq) s \<Longrightarrow>
   tidy False False (bump sq) (bump dq) (dropWhile isSpace s)"
proof (induction s)
  case Nil
  then show ?case by simp
next
  case (Cons ch cs)
  show ?case
  proof (cases "isSpace ch")
    case True
    with Cons.prems have "tidy False False (bump sq) (bump dq) cs"
      by (simp add: tidy_space bump_bump)
    with Cons.IH True show ?thesis by simp
  next
    case False
    with Cons.prems show ?thesis by simp
  qed
qed

lemma tidy_dropWhile_comma:
  "tidy wb False (bump sq) (bump dq) s \<Longrightarrow> dropWhile isSpace s = CHR '','' # s2 \<Longrightarrow>
   tidy False False (bump sq) (bump dq) s2"
proof (induction s arbitrary: wb)
  case Nil
  then show ?case by simp
next
  case (Cons ch cs)
  show ?case
  proof (cases "isSpace ch")
    case True
    with Cons.prems have "tidy False False (bump sq) (bump dq) cs" "dropWhile isSpace cs = CHR '','' # s2"
      by (simp_all add: tidy_space bump_bump)
    then show ?thesis by (rule Cons.IH)
  next
    case False
    with Cons.prems have "ch = CHR '',''" "cs = s2" by simp_all
    with Cons.prems(1) show ?thesis
      using tidy_inert [of "CHR '',''" wb False "bump sq" "bump dq" s2]
      by (simp add: digitChars_def squote_def dquote_def backslash_def isWordChar_def bump_bump)
  qed
qed

lemma tidy_itemRest:
  assumes "tidy wb esc sq dq s" and "itemRest s = Some r"
  shows "tidy False False (bump sq) (bump dq) r"
proof -
  from assms(2) obtain ch s1 s2 where s: "s = ch # s1" "ch \<in> set ''NS''"
    and d: "dropWhile isSpace s1 = CHR '','' # s2" and r: "r = dropWhile isSpace s2"
    by (auto simp: itemRest_def split: list.splits if_splits)
  from s(2) have "ch \<notin> set digitChars" "ch \<noteq> squote" "ch \<noteq> dquote" "ch \<noteq> backslash"
    by (auto simp: digitChars_def squote_def dquote_def backslash_def)
  from tidy_inert [OF this, of wb esc sq dq s1] assms(1) s(1)
  have "tidy (isWordChar ch) False (bump sq) (bump dq) s1" by simp
  from tidy_dropWhile_comma [OF this d] have "tidy False False (bump sq) (bump dq) s2" .
  then show ?thesis unfolding r by (rule tidy_dropWhile)
qed

lemma tidy_items:
  "tidy wb esc sq dq s \<Longrightarrow> items (Suc n) s = Some r \<Longrightarrow> tidy False False (bump sq) (bump dq) r"
proof (induction n arbitrary: wb esc sq dq s)
  case 0
  then show ?case using tidy_itemRest [of wb esc sq dq s r] by (simp split: option.splits)
next
  case (Suc n)
  from Suc.prems(2) obtain r1 where r1: "itemRest s = Some r1" "items (Suc n) r1 = Some r"
    by (simp split: option.splits)
  from tidy_itemRest [OF Suc.prems(1) r1(1)] have "tidy False False (bump sq) (bump dq) r1" .
  from Suc.IH [OF this r1(2)] show ?case by (simp add: bump_bump)
qed

lemma tidy_skipItems:
  "tidy False False (bump sq) (bump dq) r \<Longrightarrow> tidy False False (bump sq) (bump dq) (skipItems k r)"
proof (induction k arbitrary: r)
  case 0
  then show ?case by simp
next
  case (Suc k)
  show ?case
  proof (cases "itemRest r")
    case None
    with Suc.prems show ?thesis by simp
  next
    case (Some r1)
    from tidy_itemRest [OF Suc.prems Some] have "tidy False False (bump sq) (bump dq) r1"
      by (simp add: bump_bump)
    from Suc.IH [OF this] Some show ?thesis by simp
  qed
qed

lemma tidy_listMatch:
  assumes "tidy wb esc sq dq s" and "listMatch s = Some r"
  shows "tidy False False (bump sq) (bump dq) r"
proof -
  from assms(2) obtain r1 where "items 4 s = Some r1" and r: "r = skipItems (length r1) r1"
    by (auto simp: listMatch_def split: option.splits)
  then have r1: "items (Suc 3) s = Some r1" by (simp only: four)
  from tidy_items [OF assms(1) r1] show ?thesis unfolding r by (rule tidy_skipItems)
qed

lemma tidy_dots:
  "tidy wb esc sq dq (''...'' @ t) = tidy False False (bump sq) (bump dq) t"
  by (simp add: tidy_def bump_bump digitChars_def squote_def dquote_def backslash_def isWordChar_def)

lemma tidy_foldLists: "tidy wb esc sq dq s \<Longrightarrow> tidy wb esc sq dq (foldLists s)"
proof (induction s arbitrary: wb esc sq dq rule: length_induct)
  case (1 s)
  show ?case
  proof (cases "listMatch s")
    case (Some r)
    from tidy_listMatch [OF "1.prems" Some] listMatch_shorter [OF Some] "1.IH"
    have "tidy False False (bump sq) (bump dq) (foldLists r)" by simp
    with Some show ?thesis by (simp add: foldLists_simps(3) tidy_dots del: append.simps)
  next
    case None
    show ?thesis
    proof (cases s)
      case Nil
      then show ?thesis by (simp add: foldLists_simps tidy_Nil)
    next
      case (Cons ch cs)
      from tidy_step [OF "1.prems" [unfolded Cons]] "1.IH" Cons
      have "tidy (isWordChar ch) (ch = backslash)
         (if ch = squote then Opened else bump sq) (if ch = dquote then Opened else bump dq)
         (foldLists cs)" by simp
      from tidy_copy [OF "1.prems" [unfolded Cons] this] None Cons show ?thesis
        by (simp add: foldLists_simps)
    qed
  qed
qed

lemma tidy_dropWhile_blank:
  "tidy False False (bump sq) (bump dq) s \<Longrightarrow>
   tidy False False (bump sq) (bump dq) (dropWhile (\<lambda>x. x = CHR '' '') s)"
proof (induction s)
  case Nil
  then show ?case by simp
next
  case (Cons ch cs)
  have b: "isSpace (CHR '' '')" by (simp add: isSpace_def spaceChars_def)
  show ?case
  proof (cases "ch = CHR '' ''")
    case True
    with Cons.prems b have "tidy False False (bump sq) (bump dq) cs"
      by (simp add: tidy_space bump_bump)
    with Cons.IH True show ?thesis by simp
  next
    case False
    with Cons.prems show ?thesis by simp
  qed
qed

lemma tidy_oneSpace: "tidy wb esc sq dq s \<Longrightarrow> tidy wb esc sq dq (oneSpace s)"
proof (induction s arbitrary: wb esc sq dq rule: length_induct)
  case (1 s)
  show ?case
  proof (cases s)
    case Nil
    then show ?thesis by (simp add: oneSpace_simps tidy_Nil)
  next
    case (Cons ch cs)
    show ?thesis
    proof (cases "ch = CHR '' ''")
      case False
      from tidy_step [OF "1.prems" [unfolded Cons]] "1.IH" Cons
      have "tidy (isWordChar ch) (ch = backslash)
         (if ch = squote then Opened else bump sq) (if ch = dquote then Opened else bump dq)
         (oneSpace cs)" by simp
      from tidy_copy [OF "1.prems" [unfolded Cons] this] False Cons show ?thesis
        by (simp add: oneSpace_simps)
    next
      case True
      have b: "isSpace (CHR '' '')" by (simp add: isSpace_def spaceChars_def)
      define r where "r = dropWhile (\<lambda>x. x = CHR '' '') cs"
      from "1.prems" Cons True b have "tidy False False (bump sq) (bump dq) cs"
        by (simp add: tidy_space)
      then have "tidy False False (bump sq) (bump dq) r"
        unfolding r_def by (rule tidy_dropWhile_blank)
      moreover have "length r < length s"
        unfolding r_def using Cons length_dropWhile_le [of "\<lambda>x. x = CHR '' ''" cs] by simp
      ultimately have "tidy False False (bump sq) (bump dq) (oneSpace r)" using "1.IH" by simp
      with b have "tidy wb esc sq dq (CHR '' '' # oneSpace r)" by (simp add: tidy_space)
      with Cons True show ?thesis by (simp add: oneSpace_simps r_def)
    qed
  qed
qed

lemma replaceAll_tidy:
  assumes "\<And>wb esc sq dq p t. tidy wb esc sq dq t \<Longrightarrow> (wb \<longrightarrow> wordBefore p) \<Longrightarrow> rmatch rx (p, t) = []"
    and "tidy wb esc sq dq s" and "wb \<longrightarrow> wordBefore prev"
  shows "replaceAll rx repl just prev s = s"
  using assms(2,3)
proof (induction s arbitrary: just prev wb esc sq dq)
  case Nil
  from assms(1) [OF Nil] show ?case by (simp add: replaceAll_Nil)
next
  case (Cons ch cs)
  from assms(1) [OF Cons.prems] have "rmatch rx (prev, ch # cs) = []" .
  moreover from Cons.IH [OF tidy_step [OF Cons.prems(1)], of "Some ch" False]
  have "replaceAll rx repl False (Some ch) cs = cs" by (simp add: wordBefore_def)
  ultimately show ?case by (simp add: replaceAll_skip)
qed

lemma digit_isWordChar: "ch \<in> set digitChars \<Longrightarrow> isWordChar ch"
  by (auto simp: digitChars_def isWordChar_def)

lemma no_integer_here:
  assumes "u = [] \<or> hd u \<notin> set digitChars \<or> wordBefore p"
  shows "rmatch (Seq WordBoundary (Seq (Plus (Chars digitChars)) WordBoundary)) (p, u) = []"
proof (cases "u = [] \<or> hd u \<notin> set digitChars")
  case True
  then have "rmatch (Plus (Chars digitChars)) (p, u) = []" by (rule rmatch_Plus_none)
  then show ?thesis by (simp del: rmatch.simps(7))
next
  case False
  with assms have w: "wordBefore p" by simp
  from False obtain d r where u: "u = d # r" "d \<in> set digitChars" by (cases u) auto
  from w u digit_isWordChar [OF u(2)] have "\<not> atWordBoundary (p, u)"
    by (simp add: atWordBoundary_def wordBefore_def)
  then show ?thesis by simp
qed

lemma tidy_first_digit:
  "tidy wb esc sq dq t \<Longrightarrow> t = [] \<or> hd t \<notin> set digitChars \<or> wb"
  by (cases t) (auto simp: tidy_def)

lemma tidy_no_integer:
  assumes "tidy wb esc sq dq t" and "wb \<longrightarrow> wordBefore p"
  shows "rmatch reInteger (p, t) = []"
proof -
  from tidy_first_digit [OF assms(1)] assms(2)
  have a: "rmatch (Seq WordBoundary (Seq (Plus (Chars digitChars)) WordBoundary)) (p, t) = []"
    by (intro no_integer_here) blast
  show ?thesis
  proof (cases t)
    case Nil
    with a show ?thesis by (simp add: reInteger_def)
  next
    case (Cons ch cs)
    show ?thesis
    proof (cases "ch \<in> set ''+-''")
      case False
      with a Cons show ?thesis by (simp add: reInteger_def)
    next
      case True
      then have "\<not> isWordChar ch" by (auto simp: isWordChar_def)
      with tidy_step [OF assms(1) [unfolded Cons]] have "tidy False (ch = backslash)
         (if ch = squote then Opened else bump sq) (if ch = dquote then Opened else bump dq) cs"
        by simp
      from tidy_first_digit [OF this]
      have "rmatch (Seq WordBoundary (Seq (Plus (Chars digitChars)) WordBoundary)) (Some ch, cs) = []"
        by (intro no_integer_here) blast
      with a Cons True show ?thesis by (simp add: reInteger_def)
    qed
  qed
qed

lemma tidy_no_hex:
  assumes "tidy wb esc sq dq t" and "wb \<longrightarrow> wordBefore p"
  shows "rmatch reHex (p, t) = []"
proof (cases "t = [] \<or> hd t \<noteq> CHR ''0''")
  case True
  then show ?thesis by (cases t) (auto simp: reHex_def)
next
  case False
  then obtain r where t: "t = CHR ''0'' # r" by (cases t) auto
  with tidy_first_digit [OF assms(1)] assms(2) have "wordBefore p" by (simp add: digitChars_def)
  with t have "\<not> atWordBoundary (p, t)"
    by (simp add: atWordBoundary_def wordBefore_def isWordChar_def)
  then show ?thesis by (simp add: reHex_def)
qed

lemma tidy_no_escaped_squote:
  assumes "tidy wb esc sq dq t"
  shows "rmatch reEscSquote (p, t) = []"
proof (cases t)
  case Nil
  then show ?thesis by (simp add: reEscSquote_def)
next
  case (Cons ch cs)
  with assms show ?thesis by (cases cs) (auto simp: reEscSquote_def tidy_def)
qed

lemma tidy_no_escaped_dquote:
  assumes "tidy wb esc sq dq t"
  shows "rmatch reEscDquote (p, t) = []"
proof (cases t)
  case Nil
  then show ?thesis by (simp add: reEscDquote_def)
next
  case (Cons ch cs)
  with assms show ?thesis by (cases cs) (auto simp: reEscDquote_def tidy_def)
qed

lemma gapless_Gapped: "gapless qt Gapped s \<longleftrightarrow> qt \<notin> set s"
  by (induction s) (simp_all add: bump_def)

lemma quoted_none_without_quote:
  assumes "qt \<notin> set s"
  shows "concat (map (rmatch (Chars [qt])) (starN (rmatch (NotChars [qt])) k (p, s))) = []"
proof -
  have "rmatch (Chars [qt]) mid = []" if "mid \<in> set (starN (rmatch (NotChars [qt])) k (p, s))" for mid
  proof -
    from that have "suffix (snd mid) s"
      using starN_suffix [of "rmatch (NotChars [qt])" mid k "(p, s)"] rmatch_suffix by fastforce
    with assms have "qt \<notin> set (snd mid)" by (auto simp: suffix_def)
    then show ?thesis by (cases "snd mid") auto
  qed
  then show ?thesis by simp
qed

lemma gapless_no_match:
  assumes "gapless qt g t"
  shows "rmatch (Seq (Chars [qt]) (Seq (Plus (NotChars [qt])) (Chars [qt]))) (p, t) = []"
proof (cases "t = [] \<or> hd t \<noteq> qt")
  case True
  then show ?thesis by (rule quoted_no_match)
next
  case False
  then obtain t1 where t: "t = qt # t1" by (cases t) auto
  show ?thesis
  proof (cases t1)
    case Nil
    with t show ?thesis by simp
  next
    case (Cons b t2)
    show ?thesis
    proof (cases "b = qt")
      case True
      with t Cons show ?thesis by simp
    next
      case False
      with assms t Cons have "qt \<notin> set t2" by (simp add: gapless_Gapped bump_def)
      from quoted_none_without_quote [OF this, of "length t2" "Some b"] t Cons False
      show ?thesis by simp
    qed
  qed
qed

lemma tidy_no_squoted: "tidy wb esc sq dq t \<Longrightarrow> rmatch reSquoted (p, t) = []"
  unfolding reSquoted_def tidy_def by (blast intro: gapless_no_match)

lemma tidy_no_dquoted: "tidy wb esc sq dq t \<Longrightarrow> rmatch reDquoted (p, t) = []"
  unfolding reDquoted_def tidy_def by (blast intro: gapless_no_match)

lemma normalizeQuery_tidy:
  assumes "tidy False esc sq dq s"
  shows "normalizeQuery s = foldLists (oneSpace s)"
proof -
  from assms have t: "tidy False esc sq dq (oneSpace s)" by (rule tidy_oneSpace)
  have "normalizeQuery s =
      replaceAll reList ''...'' False None
        (replaceAll reDquoted ''S'' False None
          (replaceAll reSquoted ''S'' False None
            (replaceAll reEscDquote [] False None
              (replaceAll reEscSquote [] False None
                (replaceAll reHex ''0xN'' False None
                  (replaceAll reInteger ''N'' False None (oneSpace s)))))))"
    by (simp add: normalizeQuery_def normalizePatterns_def Normalize_def oneSpace_def)
  also have "\<dots> = foldLists (oneSpace s)"
    using replaceAll_tidy [where rx = reInteger and repl = "''N''" and just = False and prev = None, OF tidy_no_integer t]
      replaceAll_tidy [where rx = reHex and repl = "''0xN''" and just = False and prev = None, OF tidy_no_hex t]
      replaceAll_tidy [where rx = reEscSquote and repl = "[]" and just = False and prev = None, OF tidy_no_escaped_squote t]
      replaceAll_tidy [where rx = reEscDquote and repl = "[]" and just = False and prev = None, OF tidy_no_escaped_dquote t]
      replaceAll_tidy [where rx = reSquoted and repl = "''S''" and just = False and prev = None, OF tidy_no_squoted t]
      replaceAll_tidy [where rx = reDquoted and repl = "''S''" and just = False and prev = None, OF tidy_no_dquoted t]
    by (simp add: foldLists_def)
  finally show ?thesis .
qed

lemma occurs_after_opening:
  assumes "\<not> gapless qt Opened s"
  shows "occurs (Seq (Chars [qt]) (Seq (Plus (NotChars [qt])) (Chars [qt]))) p (qt # s)"
  using assms
proof (induction s arbitrary: p)
  case Nil
  then show ?case by simp
next
  case (Cons ch cs)
  show ?case
  proof (cases "ch = qt")
    case True
    with Cons.prems have "\<not> gapless qt Opened cs" by simp
    from Cons.IH [OF this, of "Some qt"] True show ?thesis by simp
  next
    case False
    with Cons.prems have "qt \<in> set cs" by (simp add: gapless_Gapped bump_def)
    then obtain body post where cs: "cs = body @ qt # post" "qt \<notin> set body"
      by (auto dest: split_list_first)
    with False have "ch # body \<noteq> []" "qt \<notin> set (ch # body)" by auto
    from quoted_match [OF this, of p post] cs show ?thesis by simp
  qed
qed

lemma occurs_unopened:
  assumes "\<not> gapless qt Unopened s"
  shows "occurs (Seq (Chars [qt]) (Seq (Plus (NotChars [qt])) (Chars [qt]))) p s"
  using assms
proof (induction s arbitrary: p)
  case Nil
  then show ?case by simp
next
  case (Cons ch cs)
  show ?case
  proof (cases "ch = qt")
    case True
    with Cons.prems have "\<not> gapless qt Opened cs" by simp
    from occurs_after_opening [OF this, of p] True show ?thesis by simp
  next
    case False
    with Cons.prems have "\<not> gapless qt Unopened cs" by (simp add: bump_def)
    from Cons.IH [OF this, of "Some ch"] show ?thesis by simp
  qed
qed

lemma literalFree_gapless:
  assumes "literalFree s"
  shows "gapless squote Unopened s" "gapless dquote Unopened s"
  using assms occurs_unopened [of squote s None] occurs_unopened [of dquote s None]
  by (auto simp: literalFree_def reSquoted_def reDquoted_def)

subsection \<open>Normalizing twice\<close>

text \<open>
  Claim C5, amended. Take a statement that holds no literal, in which no quote character
  stands directly behind a backslash, and in which every decimal digit stands directly
  behind a word character (a letter, a digit or an underscore). Normalizing it twice gives
  what normalizing it once gives.
\<close>

theorem normalizeQuery_idempotent_on_literal_free_statements:
  assumes "literalFree s" and "noEscapedQuote False s" and "digitsInWords False s"
  shows "normalizeQuery (normalizeQuery s) = normalizeQuery s"
proof -
  let ?t = "oneSpace s"
  from assms literalFree_gapless [OF assms(1)] have "tidy False False Unopened Unopened s"
    by (simp add: tidy_def)
  then have "tidy False False Unopened Unopened (foldLists ?t)"
    by (intro tidy_foldLists tidy_oneSpace)
  then have n: "normalizeQuery (foldLists ?t) = foldLists (oneSpace (foldLists ?t))"
    by (rule normalizeQuery_tidy)
  have "noDoubleSpace (foldLists ?t)"
    by (intro foldLists_noDoubleSpace oneSpace_noDoubleSpace)
  then have "oneSpace (foldLists ?t) = foldLists ?t" by (rule oneSpace_id)
  with n have "normalizeQuery (foldLists ?t) = foldLists ?t" by (simp add: foldLists_idem)
  moreover from \<open>tidy False False Unopened Unopened s\<close> have "normalizeQuery s = foldLists ?t"
    by (rule normalizeQuery_tidy)
  ultimately show ?thesis by simp
qed

theorem normalizeQuery_idempotent_witness:
  "literalFree (''SELECT  c1 FROM t2 WHERE x IN (N, N,N ,S,N,  N) AND a1 =  b_2 AND n = '' @ [squote, squote])
   \<and> noEscapedQuote False (''SELECT  c1 FROM t2 WHERE x IN (N, N,N ,S,N,  N) AND a1 =  b_2 AND n = '' @ [squote, squote])
   \<and> digitsInWords False (''SELECT  c1 FROM t2 WHERE x IN (N, N,N ,S,N,  N) AND a1 =  b_2 AND n = '' @ [squote, squote])
   \<and> normalizeQuery (''SELECT  c1 FROM t2 WHERE x IN (N, N,N ,S,N,  N) AND a1 =  b_2 AND n = '' @ [squote, squote])
       = ''SELECT c1 FROM t2 WHERE x IN (...N) AND a1 = b_2 AND n = '' @ [squote, squote]
   \<and> normalizeQuery (normalizeQuery (''SELECT  c1 FROM t2 WHERE x IN (N, N,N ,S,N,  N) AND a1 =  b_2 AND n = '' @ [squote, squote]))
       = ''SELECT c1 FROM t2 WHERE x IN (...N) AND a1 = b_2 AND n = '' @ [squote, squote]"
proof -
  let ?s = "''SELECT  c1 FROM t2 WHERE x IN (N, N,N ,S,N,  N) AND a1 =  b_2 AND n = '' @ [squote, squote]"
  have l: "literalFree ?s" by code_simp
  have e: "noEscapedQuote False ?s" by code_simp
  have d: "digitsInWords False ?s" by code_simp
  have n: "normalizeQuery ?s
       = ''SELECT c1 FROM t2 WHERE x IN (...N) AND a1 = b_2 AND n = '' @ [squote, squote]"
    by code_simp
  from normalizeQuery_idempotent_on_literal_free_statements [OF l e d] n
  have "normalizeQuery (normalizeQuery ?s)
       = ''SELECT c1 FROM t2 WHERE x IN (...N) AND a1 = b_2 AND n = '' @ [squote, squote]" by simp
  with l e d n show ?thesis by (intro conjI)
qed

text \<open>
  Claim C5 as stated fails. An escaped quote standing alone is no literal, and removing it
  (rule 4) comes after the spaces were collapsed (rule 1), so two spaces can meet; and a
  digit glued to a folded list is no integer literal until the list has been folded. The
  first statement has a quote behind a backslash, the second a digit that follows no word
  character.
\<close>

theorem literal_free_not_idempotent_counterexample:
  "literalFree (''a '' @ [backslash, squote] @ '' b'')
   \<and> normalizeQuery (normalizeQuery (''a '' @ [backslash, squote] @ '' b''))
       \<noteq> normalizeQuery (''a '' @ [backslash, squote] @ '' b'')
   \<and> normalizeQuery (''a '' @ [backslash, squote] @ '' b'') = ''a  b''
   \<and> normalizeQuery (normalizeQuery (''a '' @ [backslash, squote] @ '' b'')) = ''a b''
   \<and> \<not> noEscapedQuote False (''a '' @ [backslash, squote] @ '' b'')
   \<and> literalFree ''5N,N,N,N,''
   \<and> \<not> digitsInWords False ''5N,N,N,N,''
   \<and> normalizeQuery ''5N,N,N,N,'' = ''5...''
   \<and> normalizeQuery (normalizeQuery ''5N,N,N,N,'') = ''N...''"
  by (intro conjI; code_simp)

subsection \<open>A character no pattern consumes splits the text\<close>









subsection \<open>The first three rules leave quotes and backslashes where they are\<close>































subsection \<open>Rules 4 and 5: escaped quotes\<close>








subsection \<open>Rules 6 and 7 behind text without the quote\<close>





subsection \<open>One literal and the text before it\<close>






subsection \<open>Double-quoted literals that hold single quotes\<close>












subsection \<open>Every literal becomes S\<close>






end
